theory Spec2Isabelle
  imports Main "HOL-Library.AList"
begin

section \<open>JavaScript values used by the request layer\<close>

text \<open>
  A JavaScript string is a sequence of UTF-16 code units. The request layer passes message
  contents to \<^verbatim>\<open>btoa\<close>, which throws on a code unit above 255, so strings are
  modelled as lists of code units (natural numbers) and not as lists of bytes.
  \<open>js\<close> turns an ASCII literal of the theory into such a string.
\<close>

type_synonym jsstring = "nat list"

definition js :: "string \<Rightarrow> jsstring" where
  "js s = map of_char s"

section \<open>APICache\<close>

text \<open>
  \<^verbatim>\<open>interface CacheEntry<T> { data: T; timestamp: number; expires: number }\<close>
  Times are the millisecond counts of \<^verbatim>\<open>Date.now()\<close>.
\<close>

record 'v CacheEntry =
  data :: 'v
  timestamp :: int
  expires :: int

text \<open>
  \<^verbatim>\<open>private cache = new Map<string, CacheEntry<any>>()\<close>: a JavaScript Map iterates
  in insertion order, \<^verbatim>\<open>set\<close> on a present key keeps the key's position and on an
  absent key appends, \<^verbatim>\<open>delete\<close> removes the key. This is an association list with
  \<open>AList.update\<close> and \<open>AList.delete\<close>; \<^verbatim>\<open>size\<close> is its length and
  \<^verbatim>\<open>keys().next().value\<close> the key of its head.
\<close>

type_synonym 'v APICache = "(jsstring \<times> 'v CacheEntry) list"

definition maxSize :: nat where
  "maxSize = 100"

definition defaultTTL :: int where
  "defaultTTL = 5 * 60 * 1000"

text \<open>
  \<^verbatim>\<open>set<T>(key, data, ttl = this.defaultTTL)\<close>. The optional \<open>ttl\<close> is an option;
  \<open>now1\<close> and \<open>now2\<close> are the two readings of \<^verbatim>\<open>Date.now()\<close> in the entry literal
  (for \<^verbatim>\<open>timestamp\<close> and for \<^verbatim>\<open>expires\<close>). On an empty Map
  \<^verbatim>\<open>keys().next().value\<close> is undefined and deleting it changes nothing.
\<close>

definition APICache_set ::
  "'v APICache \<Rightarrow> jsstring \<Rightarrow> 'v \<Rightarrow> int option \<Rightarrow> int \<Rightarrow> int \<Rightarrow> 'v APICache" where
  "APICache_set c key d ttl now1 now2 =
     (let t = (case ttl of None \<Rightarrow> defaultTTL | Some x \<Rightarrow> x);
          c1 = (if length c \<ge> maxSize
                then (case c of [] \<Rightarrow> c | (firstKey, _) # _ \<Rightarrow> AList.delete firstKey c)
                else c)
      in AList.update key \<lparr>data = d, timestamp = now1, expires = now2 + t\<rparr> c1)"

text \<open>
  \<^verbatim>\<open>get<T>(key): T | null\<close> returns the value read and the cache, from which an
  expired entry has been deleted. \<open>now\<close> is the reading of \<^verbatim>\<open>Date.now()\<close>.
\<close>

definition APICache_get :: "'v APICache \<Rightarrow> jsstring \<Rightarrow> int \<Rightarrow> 'v option \<times> 'v APICache" where
  "APICache_get c key now =
     (case map_of c key of
        None \<Rightarrow> (None, c)
      | Some entry \<Rightarrow>
          if now > expires entry then (None, AList.delete key c)
          else (Some (data entry), c))"

definition APICache_clear :: "'v APICache \<Rightarrow> 'v APICache" where
  "APICache_clear c = []"

text \<open>
  One call of \<^verbatim>\<open>set\<close> as data: key, value, optional ttl and the two clock readings;
  \<open>APICache_sets\<close> performs a sequence of such calls on one cache instance.
\<close>

record 'v set_call =
  sc_key :: jsstring
  sc_data :: 'v
  sc_ttl :: "int option"
  sc_now1 :: int
  sc_now2 :: int

fun APICache_sets :: "'v APICache \<Rightarrow> 'v set_call list \<Rightarrow> 'v APICache" where
  "APICache_sets c [] = c"
| "APICache_sets c (s # ss) =
     APICache_sets (APICache_set c (sc_key s) (sc_data s) (sc_ttl s) (sc_now1 s) (sc_now2 s)) ss"

text \<open>
  A concrete run used below: 101 calls of \<^verbatim>\<open>set\<close> with the pairwise distinct
  one-character keys of code units 0 to 100.
\<close>

definition sets_101 :: "nat set_call list" where
  "sets_101 =
     map (\<lambda>i. \<lparr>sc_key = [i], sc_data = i, sc_ttl = None, sc_now1 = 0, sc_now2 = 0\<rparr>) [0..<101]"

section \<open>RateLimiter\<close>

text \<open>
  \<^verbatim>\<open>private requests = new Map<string, number[]>()\<close>, from a caller identity to the
  timestamps recorded for it, oldest first.
\<close>

type_synonym RateLimiter = "jsstring \<rightharpoonup> int list"

definition windowMs :: int where
  "windowMs = 60000"

definition maxRequests :: nat where
  "maxRequests = 60"

text \<open>
  \<^verbatim>\<open>canMakeRequest(identifier)\<close> creates the identity's list when it is missing, replaces
  it by its timestamps younger than the window start, and answers whether fewer than
  \<open>maxRequests\<close> remain. It returns the answer and the limiter as it leaves it.
\<close>

definition canMakeRequest :: "RateLimiter \<Rightarrow> jsstring \<Rightarrow> int \<Rightarrow> bool \<times> RateLimiter" where
  "canMakeRequest requests identifier now =
     (let windowStart = now - windowMs;
          requests1 = (if requests identifier = None then requests(identifier \<mapsto> []) else requests);
          requestTimes = (case requests1 identifier of None \<Rightarrow> [] | Some ts \<Rightarrow> ts);
          validRequests = filter (\<lambda>time. time > windowStart) requestTimes
      in (length validRequests < maxRequests, requests1(identifier \<mapsto> validRequests)))"

definition recordRequest :: "RateLimiter \<Rightarrow> jsstring \<Rightarrow> int \<Rightarrow> RateLimiter" where
  "recordRequest requests identifier now =
     (let requests1 = (if requests identifier = None then requests(identifier \<mapsto> []) else requests)
      in case requests1 identifier of
           None \<Rightarrow> requests1
         | Some ts \<Rightarrow> requests1(identifier \<mapsto> ts @ [now]))"

text \<open>
  What one request does to the rate limiter under a caller identity, in the two calls
  that \<^verbatim>\<open>createChatCompletion\<close> makes for it: the check, read at \<open>t_chk\<close>, and the
  recording at \<open>t_rec\<close> when the check passed. \<open>limiter_requests\<close> is a sequence of
  such requests under one identity.
\<close>

definition limiter_request ::
  "RateLimiter \<Rightarrow> jsstring \<Rightarrow> int \<Rightarrow> int \<Rightarrow> bool \<times> RateLimiter" where
  "limiter_request requests identifier t_chk t_rec =
     (case canMakeRequest requests identifier t_chk of
        (False, requests1) \<Rightarrow> (False, requests1)
      | (True, requests1) \<Rightarrow> (True, recordRequest requests1 identifier t_rec))"

fun limiter_requests ::
  "RateLimiter \<Rightarrow> jsstring \<Rightarrow> (int \<times> int) list \<Rightarrow> bool list \<times> RateLimiter" where
  "limiter_requests requests identifier [] = ([], requests)"
| "limiter_requests requests identifier ((t_chk, t_rec) # ts) =
     (case limiter_request requests identifier t_chk t_rec of
        (ok, requests1) \<Rightarrow>
          (case limiter_requests requests1 identifier ts of
             (oks, requests2) \<Rightarrow> (ok # oks, requests2)))"

section \<open>EnhancedOpenAIClient\<close>

subsection \<open>Requests, responses and errors\<close>

datatype role = System | User | Assistant

record message =
  role :: role
  content :: jsstring

text \<open>
  The parameter object of \<^verbatim>\<open>createChatCompletion\<close>; an optional property is an option.
  The code only renders the temperature into the cache key and forwards it to the provider,
  so the number is carried as the text a template literal renders for it (0.7 as \<open>0.7\<close>).
\<close>

record params =
  p_model :: "jsstring option"
  p_messages :: "message list"
  p_temperature :: "jsstring option"
  p_max_tokens :: "nat option"
  p_useCache :: "bool option"

text \<open>What is sent to \<^verbatim>\<open>this.client.chat.completions.create\<close>.\<close>

record provider_request =
  r_model :: jsstring
  r_messages :: "message list"
  r_temperature :: jsstring
  r_max_tokens :: nat

text \<open>
  What the provider answers: a completion, of which the client reads \<^verbatim>\<open>id\<close>,
  \<^verbatim>\<open>choices\<close> (here the content of each choice's message, null as \<open>None\<close>),
  \<^verbatim>\<open>usage\<close> and \<^verbatim>\<open>model\<close>; or a thrown error object, of which
  \<^verbatim>\<open>handleError\<close> reads \<^verbatim>\<open>status\<close>, \<^verbatim>\<open>code\<close> and \<^verbatim>\<open>message\<close>.
\<close>

record completion =
  c_id :: jsstring
  c_choices :: "jsstring option list"
  c_usage :: nat
  c_model :: jsstring

record api_error =
  e_status :: "int option"
  e_code :: "jsstring option"
  e_message :: "jsstring option"

text \<open>
  The object handed to the caller. \<open>fromCache\<close> is the property that only the cached path
  adds (\<^verbatim>\<open>{ fromCache: true, ...cached }\<close>); on the object built from a completion it is
  absent, which reads as false.
\<close>

record response =
  fromCache :: bool
  rid :: jsstring
  choices :: "jsstring option list"
  usage :: nat
  rmodel :: jsstring

text \<open>
  What a call can fail with: the \<^verbatim>\<open>InvalidCharacterError\<close> of \<^verbatim>\<open>btoa\<close>, or an
  \<^verbatim>\<open>Error\<close> with its message.
\<close>

datatype error = InvalidCharacterError | Error jsstring

definition RateLimited :: error where
  "RateLimited = Error (js ''Rate limit exceeded. Please wait before making another request.'')"

definition handleError :: "api_error \<Rightarrow> error" where
  "handleError e =
     (if e_status e = Some 429 then
        Error (js ''Rate limit exceeded. Please wait a moment before trying again.'')
      else if e_status e = Some 401 then
        Error (js ''Invalid API key. Please check your OpenAI configuration.'')
      else if (case e_status e of None \<Rightarrow> False | Some s \<Rightarrow> s \<ge> 500) then
        Error (js ''OpenAI service is temporarily unavailable. Please try again later.'')
      else if e_code e = Some (js ''ENOTFOUND'') \<or> e_code e = Some (js ''ECONNREFUSED'') then
        Error (js ''Network connection failed. Please check your internet connection.'')
      else
        Error (case e_message e of
                 None \<Rightarrow> js ''An unexpected error occurred with the AI service.''
               | Some m \<Rightarrow> if m = [] then js ''An unexpected error occurred with the AI service.''
                           else m))"

subsection \<open>The cache key\<close>

text \<open>
  \<^verbatim>\<open>btoa\<close> is the platform's Base64 encoder of a string of bytes: three bytes become
  four characters of the alphabet A-Z, a-z, 0-9, +, /; a last group of one or two bytes is
  padded with \<open>=\<close>. It throws \<^verbatim>\<open>InvalidCharacterError\<close> when a code unit is above 255.
\<close>

definition b64_char :: "nat \<Rightarrow> nat" where
  "b64_char n =
     (if n < 26 then 65 + n
      else if n < 52 then 97 + (n - 26)
      else if n < 62 then 48 + (n - 52)
      else if n = 62 then 43 else 47)"

fun base64 :: "nat list \<Rightarrow> jsstring" where
  "base64 (a # b # c # rest) =
     [b64_char (a div 4), b64_char ((a mod 4) * 16 + b div 16),
      b64_char ((b mod 16) * 4 + c div 64), b64_char (c mod 64)] @ base64 rest"
| "base64 [a, b] =
     [b64_char (a div 4), b64_char ((a mod 4) * 16 + b div 16), b64_char ((b mod 16) * 4), 61]"
| "base64 [a] = [b64_char (a div 4), b64_char ((a mod 4) * 16), 61, 61]"
| "base64 [] = []"

definition btoa :: "jsstring \<Rightarrow> error + jsstring" where
  "btoa s = (if \<exists>u \<in> set s. u > 255 then Inl InvalidCharacterError else Inr (base64 s))"

text \<open>\<^verbatim>\<open>Array.prototype.join\<close> on strings.\<close>

fun join :: "jsstring \<Rightarrow> jsstring list \<Rightarrow> jsstring" where
  "join sep [] = []"
| "join sep [x] = x"
| "join sep (x # y # ys) = x @ sep @ join sep (y # ys)"

definition generateCacheKey :: "message list \<Rightarrow> jsstring \<Rightarrow> jsstring \<Rightarrow> error + jsstring" where
  "generateCacheKey msgs model temperature =
     (let content = join (js ''|'') (map content msgs)
      in case btoa content of
           Inl e \<Rightarrow> Inl e
         | Inr b \<Rightarrow> Inr (js ''chat:'' @ model @ js '':'' @ temperature @ js '':'' @ take 50 b))"

subsection \<open>createChatCompletion\<close>

text \<open>
  The client's state: its cache and its rate limiter, and the record of its two effects on
  the outside, in order: \<open>pushed\<close> are the requests put on \<^verbatim>\<open>requestQueue\<close> and
  \<open>invoked\<close> the requests sent to the provider. The model is of calls that are awaited to
  completion one after the other, so that the queue is empty when a call starts and the
  worker runs the pushed request next.
\<close>

record client =
  cache :: "response APICache"
  rateLimiter :: RateLimiter
  pushed :: "provider_request list"
  invoked :: "provider_request list"

text \<open>\<^verbatim>\<open>const identifier = 'openai-chat'\<close>, the one caller identity the client uses.\<close>

definition chat_identifier :: jsstring where
  "chat_identifier = js ''openai-chat''"

text \<open>The readings of \<^verbatim>\<open>Date.now()\<close> that one call can make, in the order of the code.\<close>

record clock =
  t_get :: int
  t_check :: int
  t_record :: int
  t_set1 :: int
  t_set2 :: int

text \<open>
  The closure \<^verbatim>\<open>request\<close> that the worker runs: it records the request with the rate
  limiter, calls the provider, and on a completion builds the response, caches it when
  asked to, and resolves; on a thrown error it rejects with \<^verbatim>\<open>handleError(error)\<close>.
\<close>

definition response_of :: "completion \<Rightarrow> response" where
  "response_of completion =
     \<lparr>fromCache = False, rid = c_id completion, choices = c_choices completion,
      usage = c_usage completion, rmodel = c_model completion\<rparr>"

definition request ::
  "client \<Rightarrow> provider_request \<Rightarrow> jsstring \<Rightarrow> bool \<Rightarrow> clock \<Rightarrow> api_error + completion
     \<Rightarrow> (error + response) \<times> client" where
  "request st req cacheKey useCache clk outcome =
     (let st1 = st\<lparr>rateLimiter := recordRequest (rateLimiter st) chat_identifier (t_record clk),
                   invoked := invoked st @ [req]\<rparr>
      in case outcome of
           Inl err \<Rightarrow> (Inl (handleError err), st1)
         | Inr completion \<Rightarrow>
             (let response = response_of completion;
                  st2 = (if useCache
                         then st1\<lparr>cache := APICache_set (cache st1) cacheKey response None
                                                (t_set1 clk) (t_set2 clk)\<rparr>
                         else st1)
              in (Inr response, st2)))"

text \<open>
  The destructuring of the parameter object with its defaults:
  \<^verbatim>\<open>model = 'gpt-4o-mini', temperature = 0.7, max_tokens = 800, useCache = true\<close>.
\<close>

definition model_of :: "params \<Rightarrow> jsstring" where
  "model_of p = (case p_model p of None \<Rightarrow> js ''gpt-4o-mini'' | Some m \<Rightarrow> m)"

definition temperature_of :: "params \<Rightarrow> jsstring" where
  "temperature_of p = (case p_temperature p of None \<Rightarrow> js ''0.7'' | Some t \<Rightarrow> t)"

definition max_tokens_of :: "params \<Rightarrow> nat" where
  "max_tokens_of p = (case p_max_tokens p of None \<Rightarrow> 800 | Some n \<Rightarrow> n)"

definition useCache_of :: "params \<Rightarrow> bool" where
  "useCache_of p = (case p_useCache p of None \<Rightarrow> True | Some b \<Rightarrow> b)"

text \<open>
  \<^verbatim>\<open>createChatCompletion(params)\<close>, awaited: the cache is read first, then the rate
  limiter is asked, then the request is pushed on the queue and run by the worker.
  A thrown error and a rejected promise are both \<open>Inl\<close>. The cached object is truthy, so
  \<^verbatim>\<open>if (cached)\<close> is the test that the cache returned an entry.
\<close>

definition createChatCompletion ::
  "client \<Rightarrow> params \<Rightarrow> clock \<Rightarrow> api_error + completion \<Rightarrow> (error + response) \<times> client" where
  "createChatCompletion st p clk outcome =
     (let model = model_of p; temperature = temperature_of p;
          max_tokens = max_tokens_of p; useCache = useCache_of p
      in case generateCacheKey (p_messages p) model temperature of
           Inl e \<Rightarrow> (Inl e, st)
         | Inr cacheKey \<Rightarrow>
             (case (if useCache then APICache_get (cache st) cacheKey (t_get clk)
                    else (None, cache st)) of
                (Some cached, c1) \<Rightarrow> (Inr (cached\<lparr>fromCache := True\<rparr>), st\<lparr>cache := c1\<rparr>)
              | (None, c1) \<Rightarrow>
                  (case canMakeRequest (rateLimiter st) chat_identifier (t_check clk) of
                     (False, rl1) \<Rightarrow> (Inl RateLimited, st\<lparr>cache := c1, rateLimiter := rl1\<rparr>)
                   | (True, rl1) \<Rightarrow>
                       (let req = \<lparr>r_model = model, r_messages = p_messages p,
                                    r_temperature = temperature, r_max_tokens = max_tokens\<rparr>
                        in request (st\<lparr>cache := c1, rateLimiter := rl1,
                                        pushed := pushed st @ [req]\<rparr>)
                             req cacheKey useCache clk outcome))))"

text \<open>
  A call as data, and a sequence of calls, each awaited before the next is made.
\<close>

record call =
  c_params :: params
  c_clock :: clock
  c_outcome :: "api_error + completion"

fun submit_all :: "client \<Rightarrow> call list \<Rightarrow> (error + response) list \<times> client" where
  "submit_all st [] = ([], st)"
| "submit_all st (c # cs) =
     (case createChatCompletion st (c_params c) (c_clock c) (c_outcome c) of
        (r, st1) \<Rightarrow> (case submit_all st1 cs of (rs, st2) \<Rightarrow> (r # rs, st2)))"

text \<open>
  The timestamps held for the client's caller identity, and the two ways in which a call
  ends before it reaches the rate limiter: the cache key cannot be computed, or the answer
  comes from the cache.
\<close>

definition window :: "client \<Rightarrow> int list" where
  "window st = (case rateLimiter st chat_identifier of None \<Rightarrow> [] | Some ts \<Rightarrow> ts)"

definition served_from_cache :: "error + response \<Rightarrow> bool" where
  "served_from_cache r = (case r of Inl _ \<Rightarrow> False | Inr x \<Rightarrow> fromCache x)"

definition reached_limiter :: "error + response \<Rightarrow> bool" where
  "reached_limiter r = (r \<noteq> Inl InvalidCharacterError \<and> \<not> served_from_cache r)"

text \<open>
  Concrete inputs used below: a client that has served nothing yet, a clock that shows one
  time at every reading of a call, and a call that bypasses the cache and whose provider
  call fails with status 503.
\<close>

definition client0 :: client where
  "client0 = \<lparr>cache = [], rateLimiter = Map.empty, pushed = [], invoked = []\<rparr>"

definition clock_at :: "int \<Rightarrow> clock" where
  "clock_at t = \<lparr>t_get = t, t_check = t, t_record = t, t_set1 = t, t_set2 = t\<rparr>"

definition call0 :: call where
  "call0 = \<lparr>c_params = \<lparr>p_model = None, p_messages = [\<lparr>role = User, content = js ''hi''\<rparr>],
                          p_temperature = None, p_max_tokens = None, p_useCache = Some False\<rparr>,
             c_clock = clock_at 0,
             c_outcome = Inl \<lparr>e_status = Some 503, e_code = None, e_message = None\<rparr>\<rparr>"

text \<open>
  More concrete inputs: a completion, cache-eligible parameters with all defaults, two
  message lists that differ in role and in their last character, and a provider error
  with status 401.
\<close>

definition completion0 :: completion where
  "completion0 = \<lparr>c_id = js ''cmpl-1'', c_choices = [Some (js ''ok'')], c_usage = 7,
                   c_model = js ''gpt-4o-mini''\<rparr>"

definition params_of :: "message list \<Rightarrow> params" where
  "params_of msgs = \<lparr>p_model = None, p_messages = msgs, p_temperature = None,
                     p_max_tokens = None, p_useCache = None\<rparr>"

definition msgs_a :: "message list" where
  "msgs_a = [\<lparr>role = User, content = replicate 39 97 @ js ''X''\<rparr>]"

definition msgs_b :: "message list" where
  "msgs_b = [\<lparr>role = System, content = replicate 39 97 @ js ''Y''\<rparr>]"

definition error401 :: api_error where
  "error401 = \<lparr>e_status = Some 401, e_code = None, e_message = None\<rparr>"

section \<open>Workflow steps and the application reducer\<close>

text \<open>
  \<^verbatim>\<open>WorkflowStep\<close> with the properties the code writes: \<^verbatim>\<open>id\<close>, \<^verbatim>\<open>name\<close>,
  \<^verbatim>\<open>status\<close> (one of pending, active, completed, error), \<^verbatim>\<open>dependencies\<close>,
  \<^verbatim>\<open>estimatedTime\<close>, \<^verbatim>\<open>details\<close> and \<^verbatim>\<open>agent\<close>. The four text properties other
  than the id are options, \<open>None\<close> for undefined: \<^verbatim>\<open>createWorkflowSteps\<close> can write
  undefined into them.
\<close>

datatype status = Pending | Active | Completed | ErrorStatus

record WorkflowStep =
  ws_id :: jsstring
  ws_name :: "jsstring option"
  ws_status :: status
  ws_dependencies :: "jsstring list"
  ws_estimatedTime :: "jsstring option"
  ws_details :: "jsstring option"
  ws_agent :: "jsstring option"

text \<open>
  The payload of \<^verbatim>\<open>UPDATE_WORKFLOW_STEP\<close>, \<^verbatim>\<open>Partial<WorkflowStep> & { id: string }\<close>:
  the id and any of the other properties. \<open>merge_step\<close> is the spread
  \<^verbatim>\<open>{ ...step, ...action.payload }\<close>.
\<close>

record step_update =
  u_id :: jsstring
  u_name :: "jsstring option"
  u_status :: "status option"
  u_dependencies :: "jsstring list option"
  u_estimatedTime :: "jsstring option"
  u_details :: "jsstring option"
  u_agent :: "jsstring option"

definition merge_step :: "WorkflowStep \<Rightarrow> step_update \<Rightarrow> WorkflowStep" where
  "merge_step step payload =
     \<lparr>ws_id = u_id payload,
      ws_name = (case u_name payload of None \<Rightarrow> ws_name step | Some x \<Rightarrow> Some x),
      ws_status = (case u_status payload of None \<Rightarrow> ws_status step | Some x \<Rightarrow> x),
      ws_dependencies =
        (case u_dependencies payload of None \<Rightarrow> ws_dependencies step | Some x \<Rightarrow> x),
      ws_estimatedTime =
        (case u_estimatedTime payload of None \<Rightarrow> ws_estimatedTime step | Some x \<Rightarrow> Some x),
      ws_details = (case u_details payload of None \<Rightarrow> ws_details step | Some x \<Rightarrow> Some x),
      ws_agent = (case u_agent payload of None \<Rightarrow> ws_agent step | Some x \<Rightarrow> Some x)\<rparr>"

text \<open>
  The part of \<^verbatim>\<open>AppState\<close> that the workflow actions read and write; every other
  property is carried along unchanged by \<^verbatim>\<open>...state\<close> and stays in the record's
  extension. The actions are those the chat handlers dispatch for the workflow.
\<close>

record AppState =
  workflow :: "WorkflowStep list"
  isProcessing :: bool

datatype action =
    UPDATE_WORKFLOW_STEP step_update
  | SET_WORKFLOW "WorkflowStep list"
  | RESET_WORKFLOW
  | SET_PROCESSING bool

definition appReducer :: "'a AppState_scheme \<Rightarrow> action \<Rightarrow> 'a AppState_scheme" where
  "appReducer state act =
     (case act of
        UPDATE_WORKFLOW_STEP payload \<Rightarrow>
          (let newWorkflow = map (\<lambda>step. if ws_id step = u_id payload
                                            then merge_step step payload else step)
                               (workflow state);
               isStillProcessing = (\<exists>step \<in> set newWorkflow.
                                      ws_status step = Active \<or> ws_status step = Pending);
               allCompleted = (\<forall>step \<in> set newWorkflow. ws_status step = Completed)
           in state\<lparr>workflow := newWorkflow,
                    isProcessing := (if allCompleted then False else isStillProcessing)\<rparr>)
      | SET_WORKFLOW steps \<Rightarrow> state\<lparr>workflow := steps, isProcessing := True\<rparr>
      | RESET_WORKFLOW \<Rightarrow> state\<lparr>workflow := [], isProcessing := False\<rparr>
      | SET_PROCESSING b \<Rightarrow> state\<lparr>isProcessing := b\<rparr>)"

text \<open>
  The transitions that the specification allows, in its words: pending to active, active
  to completed, active to error. The reducer does not use this relation.
\<close>

definition spec_allowed_transition :: "status \<Rightarrow> status \<Rightarrow> bool" where
  "spec_allowed_transition old new =
     ((old = Pending \<and> new = Active) \<or> (old = Active \<and> new = Completed) \<or>
      (old = Active \<and> new = ErrorStatus))"

section \<open>The planners\<close>

subsection \<open>Strings\<close>

text \<open>
  \<^verbatim>\<open>String.prototype.includes\<close>; a regular expression \<^verbatim>\<open>/(w1|w2|...)/i\<close> of
  alternatives made of lower-case ASCII letters and spaces, which matches when some
  alternative occurs in the subject up to the case of ASCII letters; and the decimal
  rendering of a number in a template literal.
\<close>

fun str_includes :: "jsstring \<Rightarrow> jsstring \<Rightarrow> bool" where
  "str_includes [] w = (w = [])"
| "str_includes (c # cs) w = (take (length w) (c # cs) = w \<or> str_includes cs w)"

definition ascii_lower :: "nat \<Rightarrow> nat" where
  "ascii_lower u = (if 65 \<le> u \<and> u \<le> 90 then u + 32 else u)"

definition regex_test_i :: "string list \<Rightarrow> jsstring \<Rightarrow> bool" where
  "regex_test_i alternatives s = list_ex (\<lambda>w. str_includes (map ascii_lower s) (js w)) alternatives"

fun decimal :: "nat \<Rightarrow> jsstring" where
  "decimal n = (if n < 10 then [48 + n] else decimal (n div 10) @ [48 + n mod 10])"

declare decimal.simps [simp del]

subsection \<open>MultiAgentChatHandler: selectAgent and createWorkflowSteps\<close>

text \<open>
  Of an agent's configuration the planners read the name, the specialty and the keywords.
  \<open>AGENTS\<close> is the table of the first chat panel, in the order of its keys.
\<close>

record AgentConfig =
  ag_name :: jsstring
  ag_specialty :: jsstring
  ag_keywords :: "jsstring list"

definition AGENTS :: "(jsstring \<times> AgentConfig) list" where
  "AGENTS =
     [(js ''eda'', \<lparr>ag_name = js ''EDA Agent'', ag_specialty = js ''Data Explorer'',
         ag_keywords = map js [''explore'', ''eda'', ''analyze'', ''distribution'', ''pattern'',
           ''correlation'', ''outlier'', ''statistics'', ''summary'', ''data quality'']\<rparr>),
      (js ''forecasting'', \<lparr>ag_name = js ''Forecasting Agent'', ag_specialty = js ''Future Predictor'',
         ag_keywords = map js [''forecast'', ''predict'', ''future'', ''projection'', ''trend'',
           ''time series'', ''arima'', ''prophet'', ''prediction'']\<rparr>),
      (js ''whatif'', \<lparr>ag_name = js ''What-If Agent'', ag_specialty = js ''Scenario Planner'',
         ag_keywords = map js [''what if'', ''scenario'', ''simulate'', ''impact'', ''sensitivity'',
           ''assumption'', ''compare scenarios'', ''outcome'']\<rparr>),
      (js ''comparative'', \<lparr>ag_name = js ''Comparative Agent'',
         ag_specialty = js ''Performance Comparer'',
         ag_keywords = map js [''compare'', ''comparison'', ''benchmark'', ''versus'', ''vs'',
           ''difference'', ''performance gap'', ''relative'']\<rparr>),
      (js ''general'', \<lparr>ag_name = js ''General Assistant'',
         ag_specialty = js ''Your Business Assistant'', ag_keywords = []\<rparr>)]"

text \<open>
  The loop over \<^verbatim>\<open>Object.entries\<close> of an agent table that both handlers use: the first
  agent other than \<open>general\<close> one of whose keywords occurs in the message, with the first
  such keyword.
\<close>

fun first_keyword_agent ::
  "(jsstring \<times> AgentConfig) list \<Rightarrow> jsstring \<Rightarrow> (jsstring \<times> AgentConfig \<times> jsstring) option" where
  "first_keyword_agent [] lowerMessage = None"
| "first_keyword_agent ((agentKey, agent) # rest) lowerMessage =
     (if agentKey = js ''general'' then first_keyword_agent rest lowerMessage
      else case find (\<lambda>keyword. str_includes lowerMessage keyword) (ag_keywords agent) of
             Some keyword \<Rightarrow> Some (agentKey, agent, keyword)
           | None \<Rightarrow> first_keyword_agent rest lowerMessage)"

text \<open>
  \<^verbatim>\<open>selectAgent(userMessage, context)\<close>; \<open>toLowerCase\<close> is the platform's function.
\<close>

definition selectAgent :: "(jsstring \<Rightarrow> jsstring) \<Rightarrow> jsstring \<Rightarrow> jsstring list" where
  "selectAgent toLowerCase userMessage =
     (let lowerMessage = toLowerCase userMessage;
          forecastingWorkflow = [js ''eda'', js ''forecasting'']
      in if regex_test_i [''forecast'', ''predict'', ''train'', ''process'', ''clean''] lowerMessage
         then forecastingWorkflow
         else case first_keyword_agent AGENTS lowerMessage of
                Some (agentKey, _, _) \<Rightarrow> [agentKey]
              | None \<Rightarrow> [js ''general''])"

definition workflowMap :: "(jsstring \<times> jsstring \<times> jsstring \<times> jsstring) list" where
  "workflowMap =
     [(js ''eda'', js ''Analyzing Your Data'', js ''15-30s'',
         js ''Examining patterns, trends, and data quality''),
      (js ''forecasting'', js ''Generating Forecast'', js ''20-40s'',
         js ''Creating predictions based on historical patterns''),
      (js ''whatif'', js ''Running Scenarios'', js ''15-25s'',
         js ''Comparing different business scenarios''),
      (js ''comparative'', js ''Comparing Performance'', js ''15-30s'',
         js ''Benchmarking and identifying gaps''),
      (js ''general'', js ''Processing Request'', js ''10-20s'',
         js ''Understanding and responding to your query'')]"

text \<open>
  \<^verbatim>\<open>workflowMap\<close> and \<^verbatim>\<open>AGENTS\<close> are object literals, and \<^verbatim>\<open>table[key]\<close> reads a
  property: an own property of the table, or else a property inherited from
  \<^verbatim>\<open>Object.prototype\<close>, or else undefined. \<open>object_prototype\<close> lists the inherited
  properties, each with the \<^verbatim>\<open>name\<close> property of its value: \<^verbatim>\<open>constructor\<close> is the
  function \<^verbatim>\<open>Object\<close>, \<^verbatim>\<open>__proto__\<close> is the prototype object, which has no name, and
  the others are functions named as their key. None of these values has a property
  \<^verbatim>\<open>time\<close> or \<^verbatim>\<open>details\<close>.
\<close>

definition object_prototype :: "(jsstring \<times> jsstring option) list" where
  "object_prototype =
     [(js ''constructor'', Some (js ''Object'')),
      (js ''__defineGetter__'', Some (js ''__defineGetter__'')),
      (js ''__defineSetter__'', Some (js ''__defineSetter__'')),
      (js ''hasOwnProperty'', Some (js ''hasOwnProperty'')),
      (js ''__lookupGetter__'', Some (js ''__lookupGetter__'')),
      (js ''__lookupSetter__'', Some (js ''__lookupSetter__'')),
      (js ''isPrototypeOf'', Some (js ''isPrototypeOf'')),
      (js ''propertyIsEnumerable'', Some (js ''propertyIsEnumerable'')),
      (js ''toString'', Some (js ''toString'')),
      (js ''valueOf'', Some (js ''valueOf'')),
      (js ''__proto__'', None),
      (js ''toLocaleString'', Some (js ''toLocaleString''))]"

text \<open>
  \<^verbatim>\<open>createWorkflowSteps(agentKeys)\<close>: \<^verbatim>\<open>agentKeys.map((key, index) => ...)\<close>, with
  \<^verbatim>\<open>workflowMap[key] || workflowMap.general\<close> and \<^verbatim>\<open>AGENTS[key] || AGENTS.general\<close>.
  An inherited value is truthy, so that the fallback to \<open>general\<close> is for a key that is
  neither in the table nor inherited. \<open>config\<close> holds \<^verbatim>\<open>config.name\<close>,
  \<^verbatim>\<open>config.time\<close> and \<^verbatim>\<open>config.details\<close>, and \<open>agent_name\<close> is \<^verbatim>\<open>agent.name\<close>.
\<close>

definition createWorkflowStep :: "jsstring \<Rightarrow> nat \<Rightarrow> WorkflowStep" where
  "createWorkflowStep key index =
     (let config = (case map_of workflowMap key of
                      Some (name, time, details) \<Rightarrow> (Some name, Some time, Some details)
                    | None \<Rightarrow>
                        (case map_of object_prototype key of
                           Some inherited_name \<Rightarrow> (inherited_name, None, None)
                         | None \<Rightarrow> (Some (js ''Processing Request''), Some (js ''10-20s''),
                                    Some (js ''Understanding and responding to your query''))));
          agent_name = (case map_of AGENTS key of
                          Some a \<Rightarrow> Some (ag_name a)
                        | None \<Rightarrow>
                            (case map_of object_prototype key of
                               Some inherited_name \<Rightarrow> inherited_name
                             | None \<Rightarrow> Some (js ''General Assistant'')))
      in \<lparr>ws_id = js ''step-'' @ decimal (index + 1),
          ws_name = fst config,
          ws_status = (if index = 0 then Active else Pending),
          ws_dependencies = (if index > 0 then [js ''step-'' @ decimal index] else []),
          ws_estimatedTime = fst (snd config),
          ws_details = snd (snd config),
          ws_agent = agent_name\<rparr>)"

definition createWorkflowSteps :: "jsstring list \<Rightarrow> WorkflowStep list" where
  "createWorkflowSteps agentKeys =
     map (\<lambda>(key, index). createWorkflowStep key index) (zip agentKeys [0..<length agentKeys])"

subsection \<open>EnhancedMultiAgentChatHandler: selectOptimalAgents\<close>

definition ENHANCED_AGENTS :: "(jsstring \<times> AgentConfig) list" where
  "ENHANCED_AGENTS =
     [(js ''onboarding'', \<lparr>ag_name = js ''Onboarding Guide'',
         ag_specialty = js ''User Onboarding & Setup'',
         ag_keywords = map js [''start'', ''begin'', ''setup'', ''help'', ''guide'', ''onboard'',
           ''getting started'']\<rparr>),
      (js ''eda'', \<lparr>ag_name = js ''Data Explorer'', ag_specialty = js ''Exploratory Data Analysis'',
         ag_keywords = map js [''explore'', ''eda'', ''analyze'', ''distribution'', ''pattern'',
           ''correlation'', ''outlier'', ''statistics'', ''summary'', ''data quality'']\<rparr>),
      (js ''preprocessing'', \<lparr>ag_name = js ''Data Engineer'',
         ag_specialty = js ''Data Processing & Cleaning'',
         ag_keywords = map js [''clean'', ''preprocess'', ''prepare'', ''missing'', ''outliers'',
           ''transform'', ''normalize'', ''feature engineering'']\<rparr>),
      (js ''modeling'', \<lparr>ag_name = (js ''M'' @ js ''L Engineer''), ag_specialty = js ''Model Training & Selection'',
         ag_keywords = map js [''model'', ''train'', ''machine learning'', ''algorithm'', ''xgboost'',
           ''prophet'', ''lightgbm'', ''cross validation'']\<rparr>),
      (js ''forecasting'', \<lparr>ag_name = js ''Forecast Analyst'',
         ag_specialty = js ''Predictive Analytics & Forecasting'',
         ag_keywords = map js [''forecast'', ''predict'', ''future'', ''projection'', ''trend'',
           ''time series'', ''prediction intervals'']\<rparr>),
      (js ''validation'', \<lparr>ag_name = js ''Quality Analyst'',
         ag_specialty = js ''Model Validation & Testing'',
         ag_keywords = map js [''validate'', ''test'', ''accuracy'', ''performance'', ''metrics'',
           ''evaluation'', ''residuals'']\<rparr>),
      (js ''insights'', \<lparr>ag_name = js ''Business Analyst'',
         ag_specialty = js ''Business Insights & Strategy'',
         ag_keywords = map js [''insights'', ''business'', ''strategy'', ''impact'',
           ''recommendations'', ''opportunities'', ''risks'']\<rparr>),
      (js ''general'', \<lparr>ag_name = js ''BI Assistant'', ag_specialty = js ''General BI Support'',
         ag_keywords = []\<rparr>)]"

text \<open>A step literal, with its seven properties in the order of the source.\<close>

definition step ::
  "string \<Rightarrow> jsstring \<Rightarrow> status \<Rightarrow> string list \<Rightarrow> string \<Rightarrow> jsstring \<Rightarrow> jsstring \<Rightarrow> WorkflowStep" where
  "step i n st deps time details agent =
     \<lparr>ws_id = js i, ws_name = Some n, ws_status = st, ws_dependencies = map js deps,
      ws_estimatedTime = Some (js time), ws_details = Some details, ws_agent = Some agent\<rparr>"

record plan =
  agents :: "jsstring list"
  plan_workflow :: "WorkflowStep list"
  reasoning :: jsstring

text \<open>
  \<^verbatim>\<open>selectOptimalAgents(userMessage, context)\<close>. \<open>hasData\<close> is whether
  \<^verbatim>\<open>context.selectedLob?.hasData\<close> is truthy.
\<close>

definition selectOptimalAgents :: "(jsstring \<Rightarrow> jsstring) \<Rightarrow> jsstring \<Rightarrow> bool \<Rightarrow> plan" where
  "selectOptimalAgents toLowerCase userMessage hasData =
     (let lowerMessage = toLowerCase userMessage
      in if regex_test_i [''start'', ''begin'', ''help'', ''guide'', ''getting started'', ''onboard'',
                          ''setup''] lowerMessage \<and> \<not> hasData
         then \<lparr>agents = [js ''onboarding''],
               plan_workflow =
                 [step ''step-1'' (js ''Business Setup'') Pending [] ''2m''
                    (js ''Select Business Unit and Line of Business'') (js ''Onboarding Guide''),
                  step ''step-2'' (js ''Data Upload'') Pending [''step-1''] ''1m''
                    (js ''Upload your dataset for analysis'') (js ''Onboarding Guide''),
                  step ''step-3'' (js ''Analysis Planning'') Pending [''step-2''] ''30s''
                    (js ''Plan your analysis workflow'') (js ''Onboarding Guide'')],
               reasoning = js ''User needs onboarding guidance''\<rparr>
         else if regex_test_i [''forecast'', ''predict'', ''train'', ''process'',
                               ''complete analysis'', ''end to end''] lowerMessage
         then \<lparr>agents = map js [''eda'', ''preprocessing'', ''modeling'', ''validation'',
                                 ''forecasting'', ''insights''],
               plan_workflow =
                 [step ''step-1'' (js ''Exploratory Data Analysis'') Pending [] ''45s''
                    (js ''Comprehensive statistical analysis'') (js ''Data Explorer''),
                  step ''step-2'' (js ''Data Preprocessing'') Pending [''step-1''] ''30s''
                    (js ''Clean and prepare data'') (js ''Data Engineer''),
                  step ''step-3'' (js ''Model Training'') Pending [''step-2''] ''2m''
                    (js ''Train multiple forecasting models'') ((js ''M'' @ js ''L Engineer'')),
                  step ''step-4'' (js ''Model Validation'') Pending [''step-3''] ''30s''
                    (js ''Validate model performance'') (js ''Quality Analyst''),
                  step ''step-5'' (js ''Forecast Generation'') Pending [''step-4''] ''15s''
                    (js ''Generate forecasts with confidence intervals'') (js ''Forecast Analyst''),
                  step ''step-6'' (js ''Business Insights'') Pending [''step-5''] ''20s''
                    (js ''Extract strategic business insights'') (js ''Business Analyst'')],
               reasoning = js ''Complete forecasting workflow requested''\<rparr>
         else case first_keyword_agent ENHANCED_AGENTS lowerMessage of
                Some (agentKey, agent, keyword) \<Rightarrow>
                  \<lparr>agents = [agentKey],
                   plan_workflow =
                     [step ''step-1'' (ag_specialty agent) Pending [] ''30s''
                        (ag_specialty agent @ js '' analysis'') (ag_name agent)],
                   reasoning = ag_name agent @ js '' selected for '' @ keyword @ js ''-related query''\<rparr>
              | None \<Rightarrow>
                  \<lparr>agents = [js ''general''],
                   plan_workflow =
                     [step ''step-1'' (js ''General Assistance'') Pending [] ''10s''
                        (js ''Provide general help'') (js ''BI Assistant'')],
                   reasoning = js ''General assistant for broad query''\<rparr>)"

text \<open>
  The payload \<^verbatim>\<open>{ id, status }\<close> that the chat handlers dispatch, and two application
  states used below: one whose only step is completed, and one without a workflow.
\<close>

definition status_update :: "jsstring \<Rightarrow> status \<Rightarrow> step_update" where
  "status_update i st = \<lparr>u_id = i, u_name = None, u_status = Some st, u_dependencies = None,
                          u_estimatedTime = None, u_details = None, u_agent = None\<rparr>"

definition app_done :: AppState where
  "app_done = \<lparr>workflow = [step ''step-1'' (js ''Analyzing Your Data'') Completed [] ''15-30s''
                   (js ''Examining patterns, trends, and data quality'') (js ''EDA Agent'')],
               isProcessing = False\<rparr>"

definition app0 :: AppState where
  "app0 = \<lparr>workflow = [], isProcessing = False\<rparr>"

section \<open>The chat handlers\<close>

text \<open>
  What a handler's run takes from outside. \<open>env_answer i\<close> is how the \<open>i\<close>-th request of
  the run ends: the call throws or its promise is rejected (\<open>Threw\<close>, with the message when
  the value thrown is an \<^verbatim>\<open>Error\<close>), or it returns a completion (\<open>Answered\<close>, with
  \<^verbatim>\<open>choices[0].message.content\<close>, null as \<open>None\<close>). The others are functions of the
  platform and of the prompt builders, which no property below looks into: the system
  prompt built for an agent, the match of the \<^verbatim>\<open>[REPORT_DATA]\<close> block followed by
  \<^verbatim>\<open>JSON.parse\<close> (\<open>None\<close> when there is no block or it does not parse), the removal of
  that block from a text, and the report that \<^verbatim>\<open>generateComprehensiveReport\<close> builds.
  \<open>env_typeErrorMessage\<close> is the message of the \<^verbatim>\<open>TypeError\<close> that the platform throws
  when \<^verbatim>\<open>buildEnhancedSystemPrompt\<close> reads a property of undefined.
  The dispatches of thinking steps are left out: they touch only \<^verbatim>\<open>thinkingSteps\<close>.
  For an agent of the table, building the context and the prompt is taken not to throw.
\<close>

datatype outcome = Threw "jsstring option" | Answered "jsstring option"

record 'r env =
  env_toLowerCase :: "jsstring \<Rightarrow> jsstring"
  env_sanitize :: "jsstring \<Rightarrow> jsstring"
  env_prompt :: "jsstring \<Rightarrow> jsstring"
  env_answer :: "nat \<Rightarrow> outcome"
  env_parseReport :: "jsstring \<Rightarrow> 'r option"
  env_removeReport :: "jsstring \<Rightarrow> jsstring"
  env_comprehensive :: "(jsstring \<times> 'r) list \<Rightarrow> 'r"
  env_typeErrorMessage :: jsstring

text \<open>
  What a run can fail with: the \<^verbatim>\<open>TypeError\<close> of reading a property of an agent that
  is undefined, or the error thrown for an invalid message.
\<close>

datatype failure = TypeError | ValidationError jsstring

text \<open>\<^verbatim>\<open>String.prototype.trim\<close>: white space and line terminators of ECMAScript.\<close>

definition is_ws :: "nat \<Rightarrow> bool" where
  "is_ws u = (u \<in> {9, 10, 11, 12, 13, 32, 160, 5760, 8232, 8233, 8239, 8287, 12288, 65279} \<or>
              (8192 \<le> u \<and> u \<le> 8202))"

definition trim :: "jsstring \<Rightarrow> jsstring" where
  "trim s = rev (dropWhile is_ws (rev (dropWhile is_ws s)))"

subsection \<open>MultiAgentChatHandler.generateResponse\<close>

text \<open>
  The value returned, and the state of a run: the three accumulators of the function,
  the handler's conversation history, the application state behind \<^verbatim>\<open>dispatch\<close>, the
  requests sent to \<^verbatim>\<open>openai.chat.completions.create\<close>, in order, and the effects of
  the run on the outside, which are its dispatches and its requests, in the order in
  which the code makes them.
\<close>

datatype effect = Dispatched action | Requested provider_request

record 'r chat_result =
  res_response :: jsstring
  res_agentType :: jsstring
  res_reportData :: "'r option"

record 'r run =
  finalResponse :: jsstring
  finalReportData :: "'r option"
  finalAgentType :: jsstring
  conversationHistory :: "message list"
  app :: AppState
  requests :: "provider_request list"
  effects :: "effect list"

text \<open>
  \<^verbatim>\<open>this.dispatch(action)\<close> and \<^verbatim>\<open>openai.chat.completions.create(request)\<close> as steps
  of a run.
\<close>

definition dispatch :: "action \<Rightarrow> 'r run \<Rightarrow> 'r run" where
  "dispatch a r = r\<lparr>app := appReducer (app r) a, effects := effects r @ [Dispatched a]\<rparr>"

definition send :: "provider_request \<Rightarrow> 'r run \<Rightarrow> 'r run" where
  "send req r = r\<lparr>requests := requests r @ [req], effects := effects r @ [Requested req]\<rparr>"

text \<open>
  The application state that a sequence of effects makes of a state, and the effects of
  one executed step: the dispatch that sets it active, its request, and the dispatch that
  sets it completed or error.
\<close>

definition replay :: "AppState \<Rightarrow> effect list \<Rightarrow> AppState" where
  "replay state es =
     foldl (\<lambda>s e. case e of Dispatched a \<Rightarrow> appReducer s a | Requested _ \<Rightarrow> s) state es"

definition step_block :: "jsstring \<Rightarrow> provider_request \<Rightarrow> status \<Rightarrow> effect list" where
  "step_block stepId req final =
     [Dispatched (UPDATE_WORKFLOW_STEP (status_update stepId Active)), Requested req,
      Dispatched (UPDATE_WORKFLOW_STEP (status_update stepId final))]"

definition connection_apology :: jsstring where
  "connection_apology =
     js ''Sorry, I'' @ [39] @ js ''m having trouble connecting right now. Please try again.''"

text \<open>
  The loop \<^verbatim>\<open>for (let i = 0; i < agentsToUse.length; i++)\<close> from index \<open>i\<close> on, with
  the \<^verbatim>\<open>return\<close> after it. The \<^verbatim>\<open>catch\<close> returns from the function.
  \<^verbatim>\<open>AGENTS[agentKey]\<close> is undefined for a key that is neither in the table nor
  inherited; then building the prompt throws, before anything is dispatched.
\<close>

fun generateResponse_loop ::
  "'r env \<Rightarrow> jsstring \<Rightarrow> nat \<Rightarrow> jsstring list \<Rightarrow> 'r run
     \<Rightarrow> (failure + 'r chat_result) \<times> 'r run" where
  "generateResponse_loop env userMessage i [] r =
     (Inr \<lparr>res_response = (if trim (finalResponse r) = []
                             then js ''Sorry, I couldn'' @ [39] @ js ''t generate a response.''
                             else trim (finalResponse r)),
           res_agentType = finalAgentType r,
           res_reportData = finalReportData r\<rparr>, r)"
| "generateResponse_loop env userMessage i (agentKey # rest) r =
     (if map_of AGENTS agentKey = None \<and> map_of object_prototype agentKey = None
      then (Inl TypeError, r)
      else
          (let systemPrompt = env_prompt env agentKey;
               currentStepId = js ''step-'' @ decimal (i + 1);
               r0 = dispatch (UPDATE_WORKFLOW_STEP (status_update currentStepId Active))
                      (r\<lparr>finalAgentType := agentKey\<rparr>);
               history1 = conversationHistory r0 @ [\<lparr>role = User, content = userMessage\<rparr>];
               req = \<lparr>r_model = js ''gpt-4o-mini'',
                      r_messages = \<lparr>role = System, content = systemPrompt\<rparr> # history1,
                      r_temperature = js ''0.7'', r_max_tokens = 800\<rparr>;
               r1 = send req (r0\<lparr>conversationHistory := history1\<rparr>)
           in case env_answer env i of
                Threw _ \<Rightarrow>
                  (Inr \<lparr>res_response = connection_apology, res_agentType = js ''general'',
                        res_reportData = None\<rparr>,
                   dispatch (UPDATE_WORKFLOW_STEP (status_update currentStepId ErrorStatus)) r1)
              | Answered c \<Rightarrow>
                  (let aiResponse = (case c of None \<Rightarrow> [] | Some x \<Rightarrow> x);
                       r2 = dispatch (UPDATE_WORKFLOW_STEP (status_update currentStepId Completed)) r1;
                       r3 = r2\<lparr>finalResponse := finalResponse r2 @ aiResponse @ [10],
                               finalReportData :=
                                 (case env_parseReport env aiResponse of
                                    None \<Rightarrow> finalReportData r2
                                  | Some d \<Rightarrow> Some d),
                               conversationHistory :=
                                 history1 @ [\<lparr>role = Assistant, content = aiResponse\<rparr>]\<rparr>
                   in generateResponse_loop env userMessage (i + 1) rest r3)))"

text \<open>
  \<^verbatim>\<open>generateResponse(userMessage, context)\<close> of a handler with the given history, on
  the given application state.
\<close>

definition generateResponse ::
  "'r env \<Rightarrow> jsstring \<Rightarrow> message list \<Rightarrow> AppState \<Rightarrow> (failure + 'r chat_result) \<times> 'r run" where
  "generateResponse env userMessage history state =
     (let agentsToUse = selectAgent (env_toLowerCase env) userMessage;
          workflowSteps = createWorkflowSteps agentsToUse
      in generateResponse_loop env userMessage 0 agentsToUse
           (dispatch (SET_WORKFLOW workflowSteps)
              \<lparr>finalResponse = [], finalReportData = None, finalAgentType = js ''general'',
               conversationHistory = history, app = state, requests = [], effects = []\<rparr>))"

subsection \<open>EnhancedMultiAgentChatHandler.generateEnhancedResponse\<close>

definition validateChatMessage :: "jsstring \<Rightarrow> jsstring option" where
  "validateChatMessage m =
     (if m = [] then Some (js ''Message must be a non-empty string'')
      else if length (trim m) = 0 then Some (js ''Message cannot be empty'')
      else if length m > 10000 then Some (js ''Message is too long (max 10,000 characters)'')
      else None)"

record 'r enhanced_result =
  x_response :: jsstring
  x_agentType :: jsstring
  x_reportData :: "'r option"
  x_multiAgent :: bool

text \<open>
  The state of a run: the accumulators, the history, the application state, and the
  parameter objects handed to \<^verbatim>\<open>enhancedAPIClient.createChatCompletion\<close>, in order.
\<close>

record 'r enhanced_run =
  x_finalResponse :: jsstring
  x_finalReportData :: "'r option"
  x_finalAgentType :: jsstring
  x_aggregatedInsights :: "(jsstring \<times> 'r) list"
  x_conversationHistory :: "message list"
  x_app :: AppState
  x_submitted :: "params list"

text \<open>
  The loop \<^verbatim>\<open>for (const agentKey of agents)\<close>; \<open>n\<close> is \<^verbatim>\<open>agents.length\<close> and \<open>i\<close>
  the number of requests made so far. The \<^verbatim>\<open>catch\<close> appends a section with the error
  and the loop goes on with the next agent. When \<^verbatim>\<open>ENHANCED_AGENTS[agentKey]\<close> is
  undefined, reading its properties throws in the \<^verbatim>\<open>try\<close> and again in the
  \<^verbatim>\<open>catch\<close>. When it is a value inherited from \<^verbatim>\<open>Object.prototype\<close>, building the
  prompt throws a \<^verbatim>\<open>TypeError\<close> in the \<^verbatim>\<open>try\<close>, for the missing
  \<^verbatim>\<open>capabilities\<close>, before the history is extended and the request made; the
  \<^verbatim>\<open>catch\<close> appends its section under the value's name.
\<close>

fun generateEnhancedResponse_loop ::
  "'r env \<Rightarrow> jsstring \<Rightarrow> nat \<Rightarrow> nat \<Rightarrow> jsstring list \<Rightarrow> 'r enhanced_run
     \<Rightarrow> (failure + unit) \<times> 'r enhanced_run" where
  "generateEnhancedResponse_loop env sanitizedMessage n i [] r = (Inr (), r)"
| "generateEnhancedResponse_loop env sanitizedMessage n i (agentKey # rest) r =
     (case map_of ENHANCED_AGENTS agentKey of
        None \<Rightarrow>
          (case map_of object_prototype agentKey of
             None \<Rightarrow> (Inl TypeError, r)
           | Some inherited_name \<Rightarrow>
               generateEnhancedResponse_loop env sanitizedMessage n i rest
                 (r\<lparr>x_finalAgentType := agentKey,
                    x_finalResponse :=
                      x_finalResponse r @ js ''## '' @
                      (case inherited_name of None \<Rightarrow> js ''undefined'' | Some nm \<Rightarrow> nm) @
                      [10, 9888, 65039, 32] @ env_typeErrorMessage env @ [10, 10]\<rparr>))
      | Some agent \<Rightarrow>
          (let systemPrompt = env_prompt env agentKey;
               history1 = x_conversationHistory r @ [\<lparr>role = User, content = sanitizedMessage\<rparr>];
               request_params =
                 \<lparr>p_model = Some (js ''gpt-4o-mini''),
                  p_messages = \<lparr>role = System, content = systemPrompt\<rparr> #
                                 drop (length history1 - 10) history1,
                  p_temperature = Some (if agentKey = js ''insights'' then js ''0.7'' else js ''0.5''),
                  p_max_tokens = Some 1200,
                  p_useCache = Some True\<rparr>;
               r1 = r\<lparr>x_finalAgentType := agentKey,
                      x_conversationHistory := history1,
                      x_submitted := x_submitted r @ [request_params]\<rparr>
           in case env_answer env i of
                Threw m \<Rightarrow>
                  generateEnhancedResponse_loop env sanitizedMessage n (i + 1) rest
                    (r1\<lparr>x_finalResponse :=
                           x_finalResponse r1 @ js ''## '' @ ag_name agent @ [10, 9888, 65039, 32] @
                           (case m of None \<Rightarrow> js ''An unexpected error occurred'' | Some msg \<Rightarrow> msg) @
                           [10, 10]\<rparr>)
              | Answered c \<Rightarrow>
                  (let aiResponse = (case c of None \<Rightarrow> [] | Some x \<Rightarrow> x);
                       report = env_parseReport env aiResponse;
                       r2 = r1\<lparr>x_aggregatedInsights :=
                                 (case report of
                                    None \<Rightarrow> x_aggregatedInsights r1
                                  | Some d \<Rightarrow> AList.update agentKey d (x_aggregatedInsights r1)),
                               x_finalReportData :=
                                 (case report of
                                    None \<Rightarrow> x_finalReportData r1
                                  | Some d \<Rightarrow> if n = 1 then Some d else x_finalReportData r1),
                               x_finalResponse :=
                                 (if n = 1 then aiResponse
                                  else x_finalResponse r1 @ js ''## '' @ ag_name agent @ [10] @
                                       env_removeReport env aiResponse @ [10, 10]),
                               x_conversationHistory :=
                                 history1 @ [\<lparr>role = Assistant, content = aiResponse\<rparr>]\<rparr>
                   in generateEnhancedResponse_loop env sanitizedMessage n (i + 1) rest r2)))"

definition generateEnhancedResponse ::
  "'r env \<Rightarrow> jsstring \<Rightarrow> bool \<Rightarrow> message list \<Rightarrow> AppState
     \<Rightarrow> (failure + 'r enhanced_result) \<times> 'r enhanced_run" where
  "generateEnhancedResponse env userMessage hasData history state =
     (let start = \<lparr>x_finalResponse = [], x_finalReportData = None,
                   x_finalAgentType = js ''general'', x_aggregatedInsights = [],
                   x_conversationHistory = history, x_app = state, x_submitted = []\<rparr>
      in case validateChatMessage userMessage of
           Some e \<Rightarrow> (Inl (ValidationError e), start)
         | None \<Rightarrow>
             (let sanitizedMessage = env_sanitize env userMessage;
                  p = selectOptimalAgents (env_toLowerCase env) sanitizedMessage hasData;
                  start1 = (if length (plan_workflow p) > 1
                            then start\<lparr>x_app := appReducer state (SET_WORKFLOW (plan_workflow p))\<rparr>
                            else start)
              in case generateEnhancedResponse_loop env sanitizedMessage (length (agents p)) 0
                        (agents p) start1 of
                   (Inl f, r) \<Rightarrow> (Inl f, r)
                 | (Inr _, r) \<Rightarrow>
                     (let r' = (if length (agents p) > 1 \<and> x_aggregatedInsights r \<noteq> []
                                then r\<lparr>x_finalReportData :=
                                         Some (env_comprehensive env (x_aggregatedInsights r))\<rparr>
                                else r)
                      in (Inr \<lparr>x_response =
                                 (if trim (x_finalResponse r') = []
                                  then js ''I apologize, but I couldn'' @ [39] @
                                       js ''t generate a complete response. Please try again.''
                                  else trim (x_finalResponse r')),
                               x_agentType = x_finalAgentType r',
                               x_reportData = x_finalReportData r',
                               x_multiAgent = (length (agents p) > 1)\<rparr>, r'))))"

text \<open>
  Two runs used below. In the first every request is rejected with the error that
  \<^verbatim>\<open>handleError\<close> makes of status 401. In the second the first request is answered
  and every later one is rejected with the network error. The platform functions are the
  identity, which is what they are on the message \<open>forecast\<close>.
\<close>

definition env_unauthorized :: "unit env" where
  "env_unauthorized =
     \<lparr>env_toLowerCase = (\<lambda>s. s), env_sanitize = (\<lambda>s. s), env_prompt = (\<lambda>k. k),
      env_answer = (\<lambda>i. Threw (Some (js ''Invalid API key. Please check your OpenAI configuration.''))),
      env_parseReport = (\<lambda>s. None), env_removeReport = (\<lambda>s. s),
      env_comprehensive = (\<lambda>xs. ()),
      env_typeErrorMessage = js ''Cannot read properties of undefined''\<rparr>"

definition env_second_fails :: "unit env" where
  "env_second_fails =
     \<lparr>env_toLowerCase = (\<lambda>s. s), env_sanitize = (\<lambda>s. s), env_prompt = (\<lambda>k. k),
      env_answer = (\<lambda>i. if i = 0 then Answered (Some (js ''Sales rise.''))
                          else Threw (Some (js ''Network connection failed. Please check your internet connection.''))),
      env_parseReport = (\<lambda>s. None), env_removeReport = (\<lambda>s. s),
      env_comprehensive = (\<lambda>xs. ()),
      env_typeErrorMessage = js ''Cannot read properties of undefined''\<rparr>"

section \<open>Properties of the cache\<close>

text \<open>
  Inserting a key that is not in the Map: the keys keep their insertion order, the new key
  goes last, and when the Map is full the head (the oldest-inserted key) is dropped.
\<close>

lemma APICache_set_keys:
  assumes "key \<notin> set (map fst c)" and "distinct (map fst c)"
  shows "map fst (APICache_set c key d ttl now1 now2) =
           (if length c \<ge> maxSize then tl (map fst c) else map fst c) @ [key]"
proof (cases "length c \<ge> maxSize")
  case False
  then show ?thesis using assms by (simp add: APICache_set_def update_keys)
next
  case True
  then obtain fk e rest where c: "c = (fk, e) # rest"
    by (cases c) (auto simp: maxSize_def)
  from assms c have "fk \<notin> set (map fst rest)" "key \<notin> set (map fst rest)" by auto
  then have "map fst (AList.update key x (AList.delete fk c)) = map fst rest @ [key]" for x
    by (simp add: update_keys delete_keys c)
  with True c show ?thesis by (simp add: APICache_set_def Let_def)
qed

lemma APICache_sets_keys:
  assumes "distinct (map fst c @ map sc_key ops)" and "length c \<le> maxSize"
  shows "map fst (APICache_sets c ops) =
           drop (length c + length ops - maxSize) (map fst c @ map sc_key ops)"
  using assms
proof (induction ops arbitrary: c)
  case Nil
  then show ?case by simp
next
  case (Cons s ss)
  let ?c' = "APICache_set c (sc_key s) (sc_data s) (sc_ttl s) (sc_now1 s) (sc_now2 s)"
  from Cons.prems have fresh: "sc_key s \<notin> set (map fst c)" and dc: "distinct (map fst c)"
    by auto
  have keys': "map fst ?c' =
      (if length c \<ge> maxSize then tl (map fst c) else map fst c) @ [sc_key s]"
    by (rule APICache_set_keys [OF fresh dc])
  show ?case
  proof (cases "length c \<ge> maxSize")
    case False
    with keys' have k: "map fst ?c' = map fst c @ [sc_key s]" by simp
    then have len: "length ?c' = Suc (length c)"
      by (metis length_append_singleton length_map)
    from Cons.prems k have d': "distinct (map fst ?c' @ map sc_key ss)" by simp
    from len False have l': "length ?c' \<le> maxSize" by simp
    show ?thesis using Cons.IH [OF d' l'] k len by simp
  next
    case True
    with Cons.prems have leq: "length c = maxSize" by simp
    then have ne: "map fst c \<noteq> []" by (auto simp: maxSize_def)
    from keys' True have k: "map fst ?c' = tl (map fst c) @ [sc_key s]" by simp
    then have "length (map fst ?c') = length (tl (map fst c) @ [sc_key s])" by simp
    then have len: "length ?c' = maxSize" using leq ne by (simp add: maxSize_def)
    have "distinct (tl (map fst c) @ sc_key s # map sc_key ss)"
      using Cons.prems(1) ne by (cases "map fst c") auto
    with k have d': "distinct (map fst ?c' @ map sc_key ss)" by simp
    have "drop (length ss) (tl (map fst c) @ sc_key s # map sc_key ss) =
          drop (Suc (length ss)) (map fst c @ sc_key s # map sc_key ss)"
      using ne by (cases "map fst c") auto
    then show ?thesis using Cons.IH [OF d'] k len leq by simp
  qed
qed

text \<open>
  C2. On one cache instance whose keys are \<open>map fst c\<close> (at most \<open>maxSize\<close> of them),
  after each of the first \<open>n\<close> calls of a sequence of \<^verbatim>\<open>set\<close> calls with pairwise
  distinct new keys, the cache holds at most \<open>maxSize = 100\<close> entries, and they are exactly
  the most recently inserted keys in insertion order: every eviction removed the
  oldest-inserted entry. For 101 calls on an empty cache the first-inserted key is the one
  evicted.
\<close>

theorem cache_bounded_insertion_order_eviction:
  assumes "distinct (map fst c @ map sc_key ops)" and "length c \<le> maxSize"
    and "n \<le> length ops"
  shows "length (APICache_sets c (take n ops)) \<le> maxSize \<and>
         map fst (APICache_sets c (take n ops)) =
           drop (length c + n - maxSize) (map fst c @ map sc_key (take n ops))"
proof -
  have "distinct (map sc_key (take n ops))"
    using assms(1) by (simp add: take_map [symmetric] distinct_take)
  moreover have "set (map sc_key (take n ops)) \<subseteq> set (map sc_key ops)"
    using set_take_subset [of n ops] by auto
  ultimately have d: "distinct (map fst c @ map sc_key (take n ops))"
    using assms(1) by auto
  have keys: "map fst (APICache_sets c (take n ops)) =
        drop (length c + n - maxSize) (map fst c @ map sc_key (take n ops))"
    using APICache_sets_keys [OF d assms(2)] assms(3) by simp
  have "length (drop (length c + n - maxSize) (map fst c @ map sc_key (take n ops)))
          \<le> maxSize"
    using assms(2,3) by simp
  then have "length (map fst (APICache_sets c (take n ops))) \<le> maxSize"
    by (simp only: keys)
  then have "length (APICache_sets c (take n ops)) \<le> maxSize"
    by (simp only: length_map)
  with keys show ?thesis by blast
qed

theorem cache_bounded_insertion_order_eviction_witness:
  "length (APICache_sets [] sets_101) \<le> 100 \<and>
   map fst (APICache_sets [] sets_101) = map (\<lambda>i. [i]) [1..<101]"
proof -
  have k: "map sc_key sets_101 = map (\<lambda>i. [i]) [0..<101]"
    by (simp add: sets_101_def)
  have d: "distinct (map fst ([] :: nat APICache) @ map sc_key sets_101)"
    unfolding k by (simp add: distinct_map inj_on_def)
  have l: "length ([] :: nat APICache) \<le> maxSize" by simp
  have n: "101 \<le> length sets_101" by (simp add: sets_101_def)
  have "drop (Suc 0) (map (\<lambda>i. [i]) [0..<101]) = map (\<lambda>i. [i::nat]) [1..<101]"
    by (simp add: drop_map)
  moreover have "take 101 sets_101 = sets_101"
    by (simp add: sets_101_def)
  ultimately show ?thesis
    using cache_bounded_insertion_order_eviction [OF d l n] k
    by (simp add: maxSize_def)
qed

text \<open>
  C4. A \<^verbatim>\<open>get(k)\<close> right after \<^verbatim>\<open>set(k, v, ttl)\<close>, at a time \<open>now\<close> before the
  entry's creation time plus its TTL, returns the stored value \<open>v\<close> and leaves the cache as
  it is; at a time after the entry's expiry time it returns null and the entry is gone.
  The clock does not run backwards between the two readings inside \<^verbatim>\<open>set\<close>.
\<close>

theorem cache_get_after_set_roundtrip:
  assumes "now1 \<le> now2"
  shows "(now < now1 + (case ttl of None \<Rightarrow> defaultTTL | Some x \<Rightarrow> x) \<longrightarrow>
            APICache_get (APICache_set c k v ttl now1 now2) k now =
              (Some v, APICache_set c k v ttl now1 now2)) \<and>
         (now > now2 + (case ttl of None \<Rightarrow> defaultTTL | Some x \<Rightarrow> x) \<longrightarrow>
            fst (APICache_get (APICache_set c k v ttl now1 now2) k now) = None \<and>
            map_of (snd (APICache_get (APICache_set c k v ttl now1 now2) k now)) k = None)"
  using assms
  by (auto simp: APICache_get_def APICache_set_def Let_def update_conv' delete_conv'
           split: option.splits)

theorem cache_get_after_set_roundtrip_witness:
  "APICache_get (APICache_set [] (js ''k'') (7::nat) (Some 1000) 5 5) (js ''k'') 1004 =
     (Some 7, APICache_set [] (js ''k'') 7 (Some 1000) 5 5) \<and>
   fst (APICache_get (APICache_set [] (js ''k'') (7::nat) (Some 1000) 5 5) (js ''k'') 1006) = None"
proof -
  have h: "(5::int) \<le> 5" by simp
  show ?thesis
    using cache_get_after_set_roundtrip [OF h, of 1004 "Some 1000" "[]" "js ''k''" "7::nat"]
          cache_get_after_set_roundtrip [OF h, of 1006 "Some 1000" "[]" "js ''k''" "7::nat"]
    by simp
qed

section \<open>Properties of the rate limiter and the client\<close>

lemma canMakeRequest_eq:
  "canMakeRequest rl i now =
     (length (filter (\<lambda>t. t > now - windowMs) (case rl i of None \<Rightarrow> [] | Some ts \<Rightarrow> ts)) < maxRequests,
      rl(i \<mapsto> filter (\<lambda>t. t > now - windowMs) (case rl i of None \<Rightarrow> [] | Some ts \<Rightarrow> ts)))"
  by (cases "rl i") (simp_all add: canMakeRequest_def Let_def)

lemma recordRequest_eq:
  "recordRequest rl i now = rl(i \<mapsto> (case rl i of None \<Rightarrow> [] | Some ts \<Rightarrow> ts) @ [now])"
  by (cases "rl i") (simp_all add: recordRequest_def Let_def)

lemma generateCacheKey_Inl:
  "generateCacheKey msgs m t = Inl e \<Longrightarrow> e = InvalidCharacterError"
  by (auto simp: generateCacheKey_def btoa_def Let_def split: sum.splits if_splits)

lemma handleError_is_Error: "\<exists>m. handleError e = Error m"
  by (simp add: handleError_def)

lemma handleError_reached [simp]: "reached_limiter (Inl (handleError e))"
  using handleError_is_Error [of e] by (auto simp: reached_limiter_def served_from_cache_def)

lemma request_result:
  assumes "request st req key uc clk out = (res, st')"
  shows "reached_limiter res \<and>
     rateLimiter st' = recordRequest (rateLimiter st) chat_identifier (t_record clk) \<and>
     invoked st' = invoked st @ [req] \<and> pushed st' = pushed st"
proof (cases out)
  case (Inl err)
  with assms show ?thesis by (auto simp: request_def Let_def)
next
  case (Inr c)
  with assms show ?thesis
    by (auto simp: request_def Let_def reached_limiter_def served_from_cache_def response_of_def
             split: if_splits)
qed

lemma createChatCompletion_step:
  assumes "createChatCompletion st p clk out = (res, st')"
  shows "(\<not> reached_limiter res \<longrightarrow>
            rateLimiter st' = rateLimiter st \<and> pushed st' = pushed st \<and> invoked st' = invoked st) \<and>
         (reached_limiter res \<longrightarrow>
            (if length (filter (\<lambda>t. t > t_check clk - windowMs) (window st)) < maxRequests
             then window st' = filter (\<lambda>t. t > t_check clk - windowMs) (window st) @ [t_record clk] \<and>
                  length (invoked st') = Suc (length (invoked st)) \<and>
                  length (pushed st') = Suc (length (pushed st))
             else res = Inl RateLimited \<and>
                  window st' = filter (\<lambda>t. t > t_check clk - windowMs) (window st) \<and>
                  pushed st' = pushed st \<and> invoked st' = invoked st))"
proof -
  let ?model = "model_of p" and ?temp = "temperature_of p" and ?uc = "useCache_of p"
  let ?v = "filter (\<lambda>t. t > t_check clk - windowMs) (window st)"
  show ?thesis
  proof (cases "generateCacheKey (p_messages p) ?model ?temp")
    case (Inl e)
    then have "e = InvalidCharacterError" by (rule generateCacheKey_Inl)
    with Inl assms have "res = Inl InvalidCharacterError" "st' = st"
      by (simp_all add: createChatCompletion_def Let_def)
    then show ?thesis by (simp add: reached_limiter_def)
  next
    case (Inr key)
    obtain hit c1 where look:
      "(if ?uc then APICache_get (cache st) key (t_get clk) else (None, cache st)) = (hit, c1)"
      by (cases "if ?uc then APICache_get (cache st) key (t_get clk) else (None, cache st)")
    show ?thesis
    proof (cases hit)
      case (Some cached)
      with Inr look assms have "res = Inr (cached\<lparr>fromCache := True\<rparr>)" "st' = st\<lparr>cache := c1\<rparr>"
        by (simp_all add: createChatCompletion_def Let_def)
      then show ?thesis by (simp add: reached_limiter_def served_from_cache_def)
    next
      case None
      show ?thesis
      proof (cases "length ?v < maxRequests")
        case False
        with None Inr look assms
        have "res = Inl RateLimited"
          "st' = st\<lparr>cache := c1, rateLimiter := (rateLimiter st)(chat_identifier \<mapsto> ?v)\<rparr>"
          by (simp_all add: createChatCompletion_def Let_def canMakeRequest_eq window_def)
        with False show ?thesis
          by (simp add: reached_limiter_def served_from_cache_def RateLimited_def window_def)
      next
        case True
        let ?req = "\<lparr>r_model = ?model, r_messages = p_messages p, r_temperature = ?temp,
                      r_max_tokens = max_tokens_of p\<rparr>"
        let ?st1 = "st\<lparr>cache := c1, rateLimiter := (rateLimiter st)(chat_identifier \<mapsto> ?v),
                        pushed := pushed st @ [?req]\<rparr>"
        from True None Inr look assms
        have "request ?st1 ?req key ?uc clk out = (res, st')"
          by (simp add: createChatCompletion_def Let_def canMakeRequest_eq window_def)
        from request_result [OF this] True show ?thesis
          by (simp add: recordRequest_eq window_def)
      qed
    qed
  qed
qed


lemma submit_all_charged:
  assumes "submit_all st calls = (rs, st')"
    and "\<forall>r \<in> set rs. reached_limiter r"
    and "\<forall>c \<in> set calls. t_check (c_clock c) < w0 + windowMs \<and> w0 \<le> t_record (c_clock c)"
    and "\<forall>t \<in> set (window st). w0 \<le> t"
    and "length (window st) + length calls \<le> maxRequests"
  shows "window st' = window st @ map (\<lambda>c. t_record (c_clock c)) calls \<and>
         length (invoked st') = length (invoked st) + length calls \<and>
         length (pushed st') = length (pushed st) + length calls"
  using assms
proof (induction calls arbitrary: st rs)
  case Nil
  then show ?case by simp
next
  case (Cons c cs)
  obtain r st1 where step: "createChatCompletion st (c_params c) (c_clock c) (c_outcome c) = (r, st1)"
    by (cases "createChatCompletion st (c_params c) (c_clock c) (c_outcome c)")
  obtain rs1 where rest: "submit_all st1 cs = (rs1, st')" and rs: "rs = r # rs1"
    using Cons.prems(1) step by (auto split: prod.splits)
  from Cons.prems(2) rs have reached: "reached_limiter r" and reached1: "\<forall>r \<in> set rs1. reached_limiter r"
    by auto
  have keep: "filter (\<lambda>t. t > t_check (c_clock c) - windowMs) (window st) = window st"
    using Cons.prems(3,4) by (auto simp: filter_id_conv)
  have room: "length (window st) < maxRequests"
    using Cons.prems(5) by simp
  from createChatCompletion_step [OF step] reached keep room
  have w1: "window st1 = window st @ [t_record (c_clock c)]"
    and i1: "length (invoked st1) = Suc (length (invoked st))"
    and p1: "length (pushed st1) = Suc (length (pushed st))"
    by simp_all
  have a: "\<forall>c \<in> set cs. t_check (c_clock c) < w0 + windowMs \<and> w0 \<le> t_record (c_clock c)"
    using Cons.prems(3) by simp
  have b: "\<forall>t \<in> set (window st1). w0 \<le> t"
    using Cons.prems(3,4) w1 by simp
  have c: "length (window st1) + length cs \<le> maxRequests"
    using Cons.prems(5) w1 by simp
  from Cons.IH [OF rest reached1 a b c] w1 i1 p1 show ?case by simp
qed

lemma limiter_request_eq:
  "limiter_request rq i tc tr =
     (let v = filter (\<lambda>t. t > tc - windowMs) (case rq i of None \<Rightarrow> [] | Some ts \<Rightarrow> ts)
      in if length v < maxRequests then (True, rq(i \<mapsto> v @ [tr])) else (False, rq(i \<mapsto> v)))"
  by (simp add: limiter_request_def canMakeRequest_eq recordRequest_eq Let_def)

lemma limiter_requests_window:
  assumes "limiter_requests rq i tts = (oks, rq')"
    and "\<forall>tt \<in> set tts. fst tt < w0 + windowMs \<and> w0 \<le> snd tt"
    and "rq i = Some ts" and "\<forall>t \<in> set ts. w0 \<le> t"
    and "length ts + length tts \<le> maxRequests"
  shows "oks = replicate (length tts) True \<and> rq' = rq(i \<mapsto> ts @ map snd tts)"
  using assms
proof (induction tts arbitrary: rq ts oks)
  case Nil
  then show ?case by auto
next
  case (Cons tt tts)
  obtain tc tr where tt: "tt = (tc, tr)" by (cases tt)
  have keep: "filter (\<lambda>t. t > tc - windowMs) ts = ts"
    using Cons.prems(2,4) tt by (auto simp: filter_id_conv)
  have room: "length ts < maxRequests" using Cons.prems(5) by simp
  have step: "limiter_request rq i tc tr = (True, rq(i \<mapsto> ts @ [tr]))"
    using keep room Cons.prems(3) by (simp add: limiter_request_eq)
  obtain oks1 where rest: "limiter_requests (rq(i \<mapsto> ts @ [tr])) i tts = (oks1, rq')"
    and oks: "oks = True # oks1"
    using Cons.prems(1) tt step by (auto split: prod.splits)
  have a: "\<forall>tt \<in> set tts. fst tt < w0 + windowMs \<and> w0 \<le> snd tt" using Cons.prems(2) by simp
  have b: "(rq(i \<mapsto> ts @ [tr])) i = Some (ts @ [tr])" by simp
  have c: "\<forall>t \<in> set (ts @ [tr]). w0 \<le> t" using Cons.prems(2,4) tt by auto
  have d: "length (ts @ [tr]) + length tts \<le> maxRequests" using Cons.prems(5) by simp
  from Cons.IH [OF rest a b c d] oks tt show ?case by (auto simp: fun_eq_iff)
qed

lemma limiter_requests_fresh:
  assumes "rq i = None \<or> rq i = Some []" and "length tts = maxRequests"
    and "\<forall>tt \<in> set tts. w0 \<le> fst tt \<and> fst tt < w0 + windowMs \<and>
                           w0 \<le> snd tt \<and> snd tt < w0 + windowMs"
    and "limiter_requests rq i tts = (oks, rq60)"
  shows "oks = replicate maxRequests True"
    and "rq60 i = Some (map snd tts)"
    and "\<forall>other. other \<noteq> i \<longrightarrow> rq60 other = rq other"
    and "\<forall>t. w0 \<le> t \<and> t < w0 + windowMs \<longrightarrow> canMakeRequest rq60 i t = (False, rq60)"
    and "\<forall>t tr. (\<forall>x \<in> set (map snd tts). x \<le> t - windowMs) \<longrightarrow>
           limiter_request rq60 i t tr = (True, rq60(i \<mapsto> [tr]))"
proof -
  have ne: "tts \<noteq> []" using assms(2) by (auto simp: maxRequests_def)
  then obtain tc tr tts1 where tts: "tts = (tc, tr) # tts1" by (cases tts) auto
  have first: "limiter_request rq i tc tr = (True, rq(i \<mapsto> [tr]))"
    using assms(1) by (auto simp: limiter_request_eq maxRequests_def)
  obtain oks1 where rest: "limiter_requests (rq(i \<mapsto> [tr])) i tts1 = (oks1, rq60)"
    and oks: "oks = True # oks1"
    using assms(4) tts first by (auto split: prod.splits)
  have a: "\<forall>tt \<in> set tts1. fst tt < w0 + windowMs \<and> w0 \<le> snd tt"
    using assms(3) tts by simp
  have c: "\<forall>t \<in> set [tr]. w0 \<le> t" using assms(3) tts by simp
  have d: "length [tr] + length tts1 \<le> maxRequests" using assms(2) tts by simp
  from limiter_requests_window [OF rest a _ c d]
  have o1: "oks1 = replicate (length tts1) True"
    and r60: "rq60 = rq(i \<mapsto> tr # map snd tts1)" by simp_all
  show "oks = replicate maxRequests True"
    using oks o1 assms(2) tts by (simp add: replicate_Suc [symmetric] del: replicate_Suc)
  show w: "rq60 i = Some (map snd tts)" using r60 tts by simp
  show "\<forall>other. other \<noteq> i \<longrightarrow> rq60 other = rq other" using r60 by simp
  have len: "length (map snd tts) = maxRequests" using assms(2) by simp
  show "\<forall>t. w0 \<le> t \<and> t < w0 + windowMs \<longrightarrow> canMakeRequest rq60 i t = (False, rq60)"
  proof (intro allI impI)
    fix t assume t: "w0 \<le> t \<and> t < w0 + windowMs"
    have "filter (\<lambda>x. x > t - windowMs) (map snd tts) = map snd tts"
      using assms(3) t by (auto simp: filter_id_conv)
    moreover have "rq60(i \<mapsto> map snd tts) = rq60" using w by (rule map_upd_triv)
    ultimately show "canMakeRequest rq60 i t = (False, rq60)"
      using w len by (simp add: canMakeRequest_eq)
  qed
  show "\<forall>t tr. (\<forall>x \<in> set (map snd tts). x \<le> t - windowMs) \<longrightarrow>
           limiter_request rq60 i t tr = (True, rq60(i \<mapsto> [tr]))"
  proof (intro allI impI)
    fix t tr' assume old: "\<forall>x \<in> set (map snd tts). x \<le> t - windowMs"
    then have "filter (\<lambda>x. x > t - windowMs) (map snd tts) = []"
      by (auto simp: filter_empty_conv)
    then show "limiter_request rq60 i t tr' = (True, rq60(i \<mapsto> [tr']))"
      using w by (simp add: limiter_request_eq maxRequests_def)
  qed
qed

lemma createChatCompletion_limiter:
  assumes "createChatCompletion st p clk out = (res, st')"
  shows "(\<not> reached_limiter res \<longrightarrow>
            rateLimiter st' = rateLimiter st \<and> pushed st' = pushed st \<and> invoked st' = invoked st) \<and>
         (reached_limiter res \<longrightarrow>
            rateLimiter st' =
              snd (limiter_request (rateLimiter st) chat_identifier (t_check clk) (t_record clk)) \<and>
            (if fst (limiter_request (rateLimiter st) chat_identifier (t_check clk) (t_record clk))
             then length (pushed st') = Suc (length (pushed st)) \<and>
                  length (invoked st') = Suc (length (invoked st))
             else res = Inl RateLimited \<and> pushed st' = pushed st \<and> invoked st' = invoked st))"
proof -
  let ?model = "model_of p" and ?temp = "temperature_of p" and ?uc = "useCache_of p"
  let ?ts = "case rateLimiter st chat_identifier of None \<Rightarrow> [] | Some ts \<Rightarrow> ts"
  let ?v = "filter (\<lambda>t. t > t_check clk - windowMs) ?ts"
  show ?thesis
  proof (cases "generateCacheKey (p_messages p) ?model ?temp")
    case (Inl e)
    then have "e = InvalidCharacterError" by (rule generateCacheKey_Inl)
    with Inl assms have "res = Inl InvalidCharacterError" "st' = st"
      by (simp_all add: createChatCompletion_def Let_def)
    then show ?thesis by (simp add: reached_limiter_def)
  next
    case (Inr key)
    obtain hit c1 where look:
      "(if ?uc then APICache_get (cache st) key (t_get clk) else (None, cache st)) = (hit, c1)"
      by (cases "if ?uc then APICache_get (cache st) key (t_get clk) else (None, cache st)")
    show ?thesis
    proof (cases hit)
      case (Some cached)
      with Inr look assms have "res = Inr (cached\<lparr>fromCache := True\<rparr>)" "st' = st\<lparr>cache := c1\<rparr>"
        by (simp_all add: createChatCompletion_def Let_def)
      then show ?thesis by (simp add: reached_limiter_def served_from_cache_def)
    next
      case None
      show ?thesis
      proof (cases "length ?v < maxRequests")
        case False
        with None Inr look assms
        have "res = Inl RateLimited"
          "st' = st\<lparr>cache := c1, rateLimiter := (rateLimiter st)(chat_identifier \<mapsto> ?v)\<rparr>"
          by (simp_all add: createChatCompletion_def Let_def canMakeRequest_eq)
        with False show ?thesis
          by (simp add: reached_limiter_def served_from_cache_def RateLimited_def
                limiter_request_eq Let_def)
      next
        case True
        let ?req = "\<lparr>r_model = ?model, r_messages = p_messages p, r_temperature = ?temp,
                      r_max_tokens = max_tokens_of p\<rparr>"
        let ?st1 = "st\<lparr>cache := c1, rateLimiter := (rateLimiter st)(chat_identifier \<mapsto> ?v),
                        pushed := pushed st @ [?req]\<rparr>"
        from True None Inr look assms
        have "request ?st1 ?req key ?uc clk out = (res, st')"
          by (simp add: createChatCompletion_def Let_def canMakeRequest_eq)
        from request_result [OF this] True show ?thesis
          by (simp add: recordRequest_eq limiter_request_eq Let_def)
      qed
    qed
  qed
qed

lemma awaited_calls_window:
  assumes "window st = []"
    and "length calls = maxRequests"
    and "\<forall>c \<in> set calls. w0 \<le> t_check (c_clock c) \<and> t_check (c_clock c) < w0 + windowMs \<and>
                           w0 \<le> t_record (c_clock c) \<and> t_record (c_clock c) < w0 + windowMs"
    and "submit_all st calls = (rs, st60)"
    and "\<forall>r \<in> set rs. reached_limiter r"
  shows "length (invoked st60) = length (invoked st) + maxRequests \<and>
         length (pushed st60) = length (pushed st) + maxRequests \<and>
         (\<forall>p clk out res st61.
            w0 \<le> t_check clk \<and> t_check clk < w0 + windowMs \<and>
            createChatCompletion st60 p clk out = (res, st61) \<longrightarrow>
              pushed st61 = pushed st60 \<and> invoked st61 = invoked st60 \<and>
              (reached_limiter res \<longrightarrow> res = Inl RateLimited)) \<and>
         (\<forall>p clk out res st'.
            (\<forall>t \<in> set (window st60). t \<le> t_check clk - windowMs) \<and>
            createChatCompletion st60 p clk out = (res, st') \<and> reached_limiter res \<longrightarrow>
              length (invoked st') = Suc (length (invoked st60)) \<and>
              length (pushed st') = Suc (length (pushed st60)) \<and>
              window st' = [t_record clk])"
proof -
  have a: "\<forall>c \<in> set calls. t_check (c_clock c) < w0 + windowMs \<and> w0 \<le> t_record (c_clock c)"
    using assms(3) by simp
  have b: "\<forall>t \<in> set (window st). w0 \<le> t" using assms(1) by simp
  have c: "length (window st) + length calls \<le> maxRequests" using assms(1,2) by simp
  from submit_all_charged [OF assms(4,5) a b c] assms(1,2)
  have w: "window st60 = map (\<lambda>c. t_record (c_clock c)) calls"
    and i: "length (invoked st60) = length (invoked st) + maxRequests"
    and p: "length (pushed st60) = length (pushed st) + maxRequests"
    by simp_all
  have full: "filter (\<lambda>t. t > t_check clk - windowMs) (window st60) = window st60"
    if "t_check clk < w0 + windowMs" for clk
    using that assms(3) by (auto simp: w filter_id_conv)
  have len: "length (window st60) = maxRequests" using w assms(2) by simp
  have reject: "pushed st61 = pushed st60 \<and> invoked st61 = invoked st60 \<and>
                (reached_limiter res \<longrightarrow> res = Inl RateLimited)"
    if "t_check clk < w0 + windowMs" and "createChatCompletion st60 p clk out = (res, st61)"
    for p clk out res st61
    using createChatCompletion_step [OF that(2)] full [OF that(1)] len
    by (cases "reached_limiter res") simp_all
  have resume: "length (invoked st') = Suc (length (invoked st60)) \<and>
                length (pushed st') = Suc (length (pushed st60)) \<and> window st' = [t_record clk]"
    if "\<forall>t \<in> set (window st60). t \<le> t_check clk - windowMs"
      and "createChatCompletion st60 p clk out = (res, st')" and "reached_limiter res"
    for p clk out res st'
  proof -
    have "filter (\<lambda>t. t > t_check clk - windowMs) (window st60) = []"
      using that(1) by (auto simp: filter_empty_conv)
    with createChatCompletion_step [OF that(2)] that(3) show ?thesis
      by (simp add: maxRequests_def)
  qed
  from i p reject resume show ?thesis by blast
qed

text \<open>
  C1. The limiter, for every caller identity. Let an identity have no timestamp recorded,
  and let 60 requests be made for it one after the other (each one the check
  \<^verbatim>\<open>canMakeRequest\<close> followed, when it passes, by \<^verbatim>\<open>recordRequest\<close>), all clock readings
  in one window \<open>[w0, w0 + windowMs)\<close>. Then all 60 are admitted and their timestamps are
  the identity's window; no other identity's window is touched; a further check in the
  same window is refused and changes nothing; and a request made when every recorded
  timestamp is at least one window old is admitted again, alone in its window.

  The client. Every call of \<^verbatim>\<open>createChatCompletion\<close> that reaches the limiter makes exactly
  this request for the identity \<^verbatim>\<open>'openai-chat'\<close>: admitted, it is pushed on the queue and
  sent to the provider; refused, it fails with the local rate-limit error and pushes and
  invokes nothing. A call that does not reach the limiter leaves it as it was.

  Hence for the client: starting with no timestamp recorded, let 60 calls be made one after
  the other, all of whose clock readings lie in one window, none of them answered from the
  cache or refused for its characters. Then all 60 are admitted: each is pushed on the queue
  and sent to the provider. A further call in the same window pushes nothing and invokes
  nothing, and when it reaches the rate limiter it fails with the local rate-limit error. A
  call made when every recorded timestamp is at least one window old is admitted again.
\<close>

theorem rate_limit_window:
  "(\<forall>requests ident tts w0 oks requests60.
      (requests ident = None \<or> requests ident = Some []) \<and> length tts = maxRequests \<and>
      (\<forall>tt \<in> set tts. w0 \<le> fst tt \<and> fst tt < w0 + windowMs \<and>
                        w0 \<le> snd tt \<and> snd tt < w0 + windowMs) \<and>
      limiter_requests requests ident tts = (oks, requests60) \<longrightarrow>
        oks = replicate maxRequests True \<and>
        requests60 ident = Some (map snd tts) \<and>
        (\<forall>other. other \<noteq> ident \<longrightarrow> requests60 other = requests other) \<and>
        (\<forall>t. w0 \<le> t \<and> t < w0 + windowMs \<longrightarrow>
           canMakeRequest requests60 ident t = (False, requests60)) \<and>
        (\<forall>t tr. (\<forall>x \<in> set (map snd tts). x \<le> t - windowMs) \<longrightarrow>
           limiter_request requests60 ident t tr = (True, requests60(ident \<mapsto> [tr])))) \<and>
   (\<forall>st p clk out res st'.
      createChatCompletion st p clk out = (res, st') \<longrightarrow>
        (\<not> reached_limiter res \<longrightarrow>
           rateLimiter st' = rateLimiter st \<and> pushed st' = pushed st \<and> invoked st' = invoked st) \<and>
        (reached_limiter res \<longrightarrow>
           rateLimiter st' =
             snd (limiter_request (rateLimiter st) chat_identifier (t_check clk) (t_record clk)) \<and>
           (if fst (limiter_request (rateLimiter st) chat_identifier (t_check clk) (t_record clk))
            then length (pushed st') = Suc (length (pushed st)) \<and>
                 length (invoked st') = Suc (length (invoked st))
            else res = Inl RateLimited \<and> pushed st' = pushed st \<and> invoked st' = invoked st))) \<and>
   (\<forall>st calls w0 rs st60.
      window st = [] \<and> length calls = maxRequests \<and>
      (\<forall>c \<in> set calls. w0 \<le> t_check (c_clock c) \<and> t_check (c_clock c) < w0 + windowMs \<and>
                         w0 \<le> t_record (c_clock c) \<and> t_record (c_clock c) < w0 + windowMs) \<and>
      submit_all st calls = (rs, st60) \<and> (\<forall>r \<in> set rs. reached_limiter r) \<longrightarrow>
        length (invoked st60) = length (invoked st) + maxRequests \<and>
        length (pushed st60) = length (pushed st) + maxRequests \<and>
        (\<forall>p clk out res st61.
           w0 \<le> t_check clk \<and> t_check clk < w0 + windowMs \<and>
           createChatCompletion st60 p clk out = (res, st61) \<longrightarrow>
             pushed st61 = pushed st60 \<and> invoked st61 = invoked st60 \<and>
             (reached_limiter res \<longrightarrow> res = Inl RateLimited)) \<and>
        (\<forall>p clk out res st'.
           (\<forall>t \<in> set (window st60). t \<le> t_check clk - windowMs) \<and>
           createChatCompletion st60 p clk out = (res, st') \<and> reached_limiter res \<longrightarrow>
             length (invoked st') = Suc (length (invoked st60)) \<and>
             length (pushed st') = Suc (length (pushed st60)) \<and>
             window st' = [t_record clk]))"
proof (intro conjI)
  show "\<forall>requests ident tts w0 oks requests60.
      (requests ident = None \<or> requests ident = Some []) \<and> length tts = maxRequests \<and>
      (\<forall>tt \<in> set tts. w0 \<le> fst tt \<and> fst tt < w0 + windowMs \<and>
                        w0 \<le> snd tt \<and> snd tt < w0 + windowMs) \<and>
      limiter_requests requests ident tts = (oks, requests60) \<longrightarrow>
        oks = replicate maxRequests True \<and>
        requests60 ident = Some (map snd tts) \<and>
        (\<forall>other. other \<noteq> ident \<longrightarrow> requests60 other = requests other) \<and>
        (\<forall>t. w0 \<le> t \<and> t < w0 + windowMs \<longrightarrow>
           canMakeRequest requests60 ident t = (False, requests60)) \<and>
        (\<forall>t tr. (\<forall>x \<in> set (map snd tts). x \<le> t - windowMs) \<longrightarrow>
           limiter_request requests60 ident t tr = (True, requests60(ident \<mapsto> [tr])))"
  proof (intro allI impI, elim conjE)
    fix requests :: RateLimiter and ident tts w0 oks requests60
    assume h: "requests ident = None \<or> requests ident = Some []" "length tts = maxRequests"
      "\<forall>tt \<in> set tts. w0 \<le> fst tt \<and> fst tt < w0 + windowMs \<and> w0 \<le> snd tt \<and> snd tt < w0 + windowMs"
      "limiter_requests requests ident tts = (oks, requests60)"
    from limiter_requests_fresh [OF h]
    show "oks = replicate maxRequests True \<and>
        requests60 ident = Some (map snd tts) \<and>
        (\<forall>other. other \<noteq> ident \<longrightarrow> requests60 other = requests other) \<and>
        (\<forall>t. w0 \<le> t \<and> t < w0 + windowMs \<longrightarrow>
           canMakeRequest requests60 ident t = (False, requests60)) \<and>
        (\<forall>t tr. (\<forall>x \<in> set (map snd tts). x \<le> t - windowMs) \<longrightarrow>
           limiter_request requests60 ident t tr = (True, requests60(ident \<mapsto> [tr])))"
      by (intro conjI)
  qed
next
  show "\<forall>st p clk out res st'.
      createChatCompletion st p clk out = (res, st') \<longrightarrow>
        (\<not> reached_limiter res \<longrightarrow>
           rateLimiter st' = rateLimiter st \<and> pushed st' = pushed st \<and> invoked st' = invoked st) \<and>
        (reached_limiter res \<longrightarrow>
           rateLimiter st' =
             snd (limiter_request (rateLimiter st) chat_identifier (t_check clk) (t_record clk)) \<and>
           (if fst (limiter_request (rateLimiter st) chat_identifier (t_check clk) (t_record clk))
            then length (pushed st') = Suc (length (pushed st)) \<and>
                 length (invoked st') = Suc (length (invoked st))
            else res = Inl RateLimited \<and> pushed st' = pushed st \<and> invoked st' = invoked st))"
    using createChatCompletion_limiter by blast
next
  show "\<forall>st calls w0 rs st60.
      window st = [] \<and> length calls = maxRequests \<and>
      (\<forall>c \<in> set calls. w0 \<le> t_check (c_clock c) \<and> t_check (c_clock c) < w0 + windowMs \<and>
                         w0 \<le> t_record (c_clock c) \<and> t_record (c_clock c) < w0 + windowMs) \<and>
      submit_all st calls = (rs, st60) \<and> (\<forall>r \<in> set rs. reached_limiter r) \<longrightarrow>
        length (invoked st60) = length (invoked st) + maxRequests \<and>
        length (pushed st60) = length (pushed st) + maxRequests \<and>
        (\<forall>p clk out res st61.
           w0 \<le> t_check clk \<and> t_check clk < w0 + windowMs \<and>
           createChatCompletion st60 p clk out = (res, st61) \<longrightarrow>
             pushed st61 = pushed st60 \<and> invoked st61 = invoked st60 \<and>
             (reached_limiter res \<longrightarrow> res = Inl RateLimited)) \<and>
        (\<forall>p clk out res st'.
           (\<forall>t \<in> set (window st60). t \<le> t_check clk - windowMs) \<and>
           createChatCompletion st60 p clk out = (res, st') \<and> reached_limiter res \<longrightarrow>
             length (invoked st') = Suc (length (invoked st60)) \<and>
             length (pushed st') = Suc (length (pushed st60)) \<and>
             window st' = [t_record clk])"
  proof (intro allI impI, elim conjE)
    fix st st60 :: client and calls w0 rs
    assume h: "window st = []" "length calls = maxRequests"
      "\<forall>c \<in> set calls. w0 \<le> t_check (c_clock c) \<and> t_check (c_clock c) < w0 + windowMs \<and>
                         w0 \<le> t_record (c_clock c) \<and> t_record (c_clock c) < w0 + windowMs"
      "submit_all st calls = (rs, st60)" "\<forall>r \<in> set rs. reached_limiter r"
    show "length (invoked st60) = length (invoked st) + maxRequests \<and>
        length (pushed st60) = length (pushed st) + maxRequests \<and>
        (\<forall>p clk out res st61.
           w0 \<le> t_check clk \<and> t_check clk < w0 + windowMs \<and>
           createChatCompletion st60 p clk out = (res, st61) \<longrightarrow>
             pushed st61 = pushed st60 \<and> invoked st61 = invoked st60 \<and>
             (reached_limiter res \<longrightarrow> res = Inl RateLimited)) \<and>
        (\<forall>p clk out res st'.
           (\<forall>t \<in> set (window st60). t \<le> t_check clk - windowMs) \<and>
           createChatCompletion st60 p clk out = (res, st') \<and> reached_limiter res \<longrightarrow>
             length (invoked st') = Suc (length (invoked st60)) \<and>
             length (pushed st') = Suc (length (pushed st60)) \<and>
             window st' = [t_record clk])"
      by (rule awaited_calls_window [OF h])
  qed
qed


lemma join_latin1:
  "\<forall>x \<in> set xs. \<forall>u \<in> set x. u \<le> 255 \<Longrightarrow> \<forall>u \<in> set (join (js ''|'') xs). u \<le> 255"
  by (induction "js ''|''" xs rule: join.induct) (auto simp: js_def)

lemma uncached_reaches_limiter:
  assumes "p_useCache p = Some False"
    and "\<forall>m \<in> set (p_messages p). \<forall>u \<in> set (content m). u \<le> 255"
  shows "reached_limiter (fst (createChatCompletion st p clk out))"
proof -
  obtain res st' where r: "createChatCompletion st p clk out = (res, st')"
    by (cases "createChatCompletion st p clk out")
  have "\<forall>u \<in> set (join (js ''|'') (map content (p_messages p))). u \<le> 255"
    using assms(2) by (intro join_latin1) auto
  then have "btoa (join (js ''|'') (map content (p_messages p))) =
               Inr (base64 (join (js ''|'') (map content (p_messages p))))"
    by (auto simp: btoa_def)
  then obtain key where "generateCacheKey (p_messages p) (model_of p) (temperature_of p) = Inr key"
    by (simp add: generateCacheKey_def Let_def)
  with r assms(1) have "res = Inl RateLimited \<or> (\<exists>s req. request s req key False clk out = (res, st'))"
    by (auto simp: createChatCompletion_def Let_def useCache_of_def split: prod.splits bool.splits)
  then have "reached_limiter res"
    by (auto simp: reached_limiter_def served_from_cache_def RateLimited_def dest: request_result)
  with r show ?thesis by simp
qed

lemma submit_all_uncached:
  assumes "\<forall>c \<in> set calls. p_useCache (c_params c) = Some False \<and>
             (\<forall>m \<in> set (p_messages (c_params c)). \<forall>u \<in> set (content m). u \<le> 255)"
  shows "\<forall>r \<in> set (fst (submit_all st calls)). reached_limiter r"
  using assms
proof (induction calls arbitrary: st)
  case Nil
  then show ?case by simp
next
  case (Cons c cs)
  have "reached_limiter (fst (createChatCompletion st (c_params c) (c_clock c) (c_outcome c)))"
    using Cons.prems by (intro uncached_reaches_limiter) auto
  moreover have "\<forall>r \<in> set (fst (submit_all s cs)). reached_limiter r" for s
    using Cons.prems by (intro Cons.IH) auto
  ultimately show ?case by (auto split: prod.splits) (metis fst_conv)+
qed

theorem rate_limit_window_witness:
  "fst (limiter_requests Map.empty (js ''batch-job'') (replicate 60 (0, 0))) = replicate 60 True \<and>
   fst (canMakeRequest (snd (limiter_requests Map.empty (js ''batch-job'') (replicate 60 (0, 0))))
          (js ''batch-job'') 59999) = False \<and>
   fst (limiter_request (snd (limiter_requests Map.empty (js ''batch-job'') (replicate 60 (0, 0))))
          (js ''batch-job'') 60000 60000) = True \<and>
   length (invoked (snd (submit_all client0 (replicate 60 call0)))) = 60 \<and>
   fst (createChatCompletion (snd (submit_all client0 (replicate 60 call0)))
          (c_params call0) (clock_at 59999) (c_outcome call0)) = Inl RateLimited \<and>
   length (invoked (snd (createChatCompletion (snd (submit_all client0 (replicate 60 call0)))
          (c_params call0) (clock_at 60000) (c_outcome call0)))) = 61"
proof -
  note limiter = rate_limit_window [THEN conjunct1, rule_format]
  note awaited = rate_limit_window [THEN conjunct2, THEN conjunct2, rule_format]
  let ?i = "js ''batch-job''" and ?tts = "replicate 60 (0::int, 0::int)"
  let ?oks = "fst (limiter_requests Map.empty ?i ?tts)"
  let ?rq60 = "snd (limiter_requests Map.empty ?i ?tts)"
  have l: "(Map.empty ?i = None \<or> Map.empty ?i = Some []) \<and> length ?tts = maxRequests \<and>
      (\<forall>tt \<in> set ?tts. 0 \<le> fst tt \<and> fst tt < 0 + windowMs \<and>
                        0 \<le> snd tt \<and> snd tt < 0 + windowMs) \<and>
      limiter_requests Map.empty ?i ?tts = (?oks, ?rq60)"
    by (simp add: maxRequests_def windowMs_def)
  have l1: "?oks = replicate 60 True"
    using limiter [OF l] by (simp add: maxRequests_def)
  have "canMakeRequest ?rq60 ?i 59999 = (False, ?rq60)"
    using limiter [OF l] by (simp add: windowMs_def)
  then have l2: "fst (canMakeRequest ?rq60 ?i 59999) = False" by simp
  have "limiter_request ?rq60 ?i 60000 60000 = (True, ?rq60(?i \<mapsto> [60000]))"
    using limiter [OF l] by (simp add: windowMs_def)
  then have l3: "fst (limiter_request ?rq60 ?i 60000 60000) = True" by simp
  let ?calls = "replicate 60 call0"
  let ?rs = "fst (submit_all client0 ?calls)" and ?st60 = "snd (submit_all client0 ?calls)"
  have latin: "\<forall>m \<in> set (p_messages (c_params call0)). \<forall>u \<in> set (content m). u \<le> 255"
    by (simp add: call0_def js_def)
  have unc: "p_useCache (c_params call0) = Some False" by (simp add: call0_def)
  have h1: "window client0 = []" by (simp add: window_def client0_def)
  have h2: "length ?calls = maxRequests" by (simp add: maxRequests_def)
  have h3: "\<forall>c \<in> set ?calls. 0 \<le> t_check (c_clock c) \<and> t_check (c_clock c) < 0 + windowMs \<and>
              0 \<le> t_record (c_clock c) \<and> t_record (c_clock c) < 0 + windowMs"
    by (simp add: call0_def clock_at_def windowMs_def)
  have h4: "submit_all client0 ?calls = (?rs, ?st60)" by simp
  have h5: "\<forall>r \<in> set ?rs. reached_limiter r"
    using latin unc by (intro submit_all_uncached) simp
  have h: "window client0 = [] \<and> length ?calls = maxRequests \<and>
      (\<forall>c \<in> set ?calls. 0 \<le> t_check (c_clock c) \<and> t_check (c_clock c) < 0 + windowMs \<and>
                         0 \<le> t_record (c_clock c) \<and> t_record (c_clock c) < 0 + windowMs) \<and>
      submit_all client0 ?calls = (?rs, ?st60) \<and> (\<forall>r \<in> set ?rs. reached_limiter r)"
    using h1 h2 h3 h4 h5 by (intro conjI)
  note main = awaited [OF h]
  have w60: "window ?st60 = replicate 60 0"
    using submit_all_charged [OF h4 h5, of 0] h1 h3
    by (simp add: maxRequests_def call0_def clock_at_def map_replicate_const)
  let ?r61 = "createChatCompletion ?st60 (c_params call0) (clock_at 59999) (c_outcome call0)"
  let ?r62 = "createChatCompletion ?st60 (c_params call0) (clock_at 60000) (c_outcome call0)"
  have a: "length (invoked ?st60) = 60"
    using main by (simp add: client0_def maxRequests_def)
  have "0 \<le> t_check (clock_at 59999) \<and> t_check (clock_at 59999) < 0 + windowMs \<and>
        ?r61 = (fst ?r61, snd ?r61)"
    by (simp add: clock_at_def windowMs_def)
  moreover have "reached_limiter (fst ?r61)"
    using unc latin by (rule uncached_reaches_limiter)
  ultimately have b: "fst ?r61 = Inl RateLimited"
    using main by blast
  have "(\<forall>t \<in> set (window ?st60). t \<le> t_check (clock_at 60000) - windowMs) \<and>
        ?r62 = (fst ?r62, snd ?r62)"
    by (simp add: w60 clock_at_def windowMs_def)
  moreover have "reached_limiter (fst ?r62)"
    using unc latin by (rule uncached_reaches_limiter)
  ultimately have "length (invoked (snd ?r62)) = Suc (length (invoked ?st60))"
    using main by blast
  then have c: "length (invoked (snd ?r62)) = 61" using a by simp
  from l1 l2 l3 a b c show ?thesis by (intro conjI)
qed

lemma cache_hit_returns:
  assumes "generateCacheKey (p_messages p) (model_of p) (temperature_of p) = Inr key"
    and "useCache_of p"
    and "fst (APICache_get (cache st) key (t_get clk)) = Some r"
  shows "createChatCompletion st p clk out = (Inr (r\<lparr>fromCache := True\<rparr>), st)"
proof -
  from assms(3) have "APICache_get (cache st) key (t_get clk) = (Some r, cache st)"
    by (auto simp: APICache_get_def split: option.splits if_splits)
  with assms(1,2) show ?thesis
    by (simp add: createChatCompletion_def Let_def)
qed

lemma provider_answer_cached:
  assumes "createChatCompletion st p clk (Inr cpl) = (Inr resp, st1)"
    and "\<not> fromCache resp" and "useCache_of p"
  shows "\<exists>key. generateCacheKey (p_messages p) (model_of p) (temperature_of p) = Inr key \<and>
           map_of (cache st1) key =
             Some \<lparr>data = resp, timestamp = t_set1 clk, expires = t_set2 clk + defaultTTL\<rparr> \<and>
           length (invoked st1) = Suc (length (invoked st)) \<and> resp = response_of cpl"
proof (cases "generateCacheKey (p_messages p) (model_of p) (temperature_of p)")
  case (Inl e)
  with assms(1) show ?thesis by (simp add: createChatCompletion_def Let_def)
next
  case (Inr key)
  obtain hit c1 where look: "APICache_get (cache st) key (t_get clk) = (hit, c1)"
    by (cases "APICache_get (cache st) key (t_get clk)")
  show ?thesis
  proof (cases hit)
    case (Some cached)
    with Inr look assms show ?thesis by (auto simp: createChatCompletion_def Let_def)
  next
    case None
    obtain ok rl1 where lim: "canMakeRequest (rateLimiter st) chat_identifier (t_check clk) = (ok, rl1)"
      by (cases "canMakeRequest (rateLimiter st) chat_identifier (t_check clk)")
    show ?thesis
    proof (cases ok)
      case False
      with None Inr look lim assms show ?thesis by (simp add: createChatCompletion_def Let_def)
    next
      case True
      with None Inr look lim assms show ?thesis
        by (auto simp: createChatCompletion_def Let_def request_def APICache_set_def update_conv')
    qed
  qed
qed

lemma second_call_served_from_cache:
  assumes first: "createChatCompletion st p1 clk1 (Inr cpl) = (Inr resp, st1)"
    and fresh: "\<not> fromCache resp"
    and uc: "useCache_of p1" "useCache_of p2"
    and same: "generateCacheKey (p_messages p2) (model_of p2) (temperature_of p2) =
               generateCacheKey (p_messages p1) (model_of p1) (temperature_of p1)"
    and ttl: "t_get clk2 \<le> t_set2 clk1 + defaultTTL"
  shows "createChatCompletion st1 p2 clk2 out2 = (Inr (resp\<lparr>fromCache := True\<rparr>), st1) \<and>
         length (invoked st1) = Suc (length (invoked st))"
proof -
  from provider_answer_cached [OF first fresh uc(1)] obtain key where
    key: "generateCacheKey (p_messages p1) (model_of p1) (temperature_of p1) = Inr key"
    and entry: "map_of (cache st1) key =
       Some \<lparr>data = resp, timestamp = t_set1 clk1, expires = t_set2 clk1 + defaultTTL\<rparr>"
    and inv: "length (invoked st1) = Suc (length (invoked st))"
    by blast
  from entry ttl have "fst (APICache_get (cache st1) key (t_get clk2)) = Some resp"
    by (simp add: APICache_get_def)
  from cache_hit_returns [OF _ uc(2) this] same key inv show ?thesis by simp
qed



lemma latin1_key:
  assumes "\<forall>m \<in> set msgs. \<forall>u \<in> set (content m). u \<le> 255"
  shows "\<exists>key. generateCacheKey msgs model temp = Inr key"
proof -
  have "\<forall>u \<in> set (join (js ''|'') (map content msgs)). u \<le> 255"
    using assms by (intro join_latin1) auto
  then have "btoa (join (js ''|'') (map content msgs)) = Inr (base64 (join (js ''|'') (map content msgs)))"
    by (auto simp: btoa_def)
  then show ?thesis by (simp add: generateCacheKey_def Let_def)
qed

lemma first_call_answered:
  assumes "\<forall>m \<in> set (p_messages p). \<forall>u \<in> set (content m). u \<le> 255"
    and "cache st = []" and "rateLimiter st chat_identifier = None"
  shows "fst (createChatCompletion st p clk (Inr cpl)) = Inr (response_of cpl) \<and>
         window (snd (createChatCompletion st p clk (Inr cpl))) = [t_record clk]"
proof -
  from latin1_key [OF assms(1)] obtain key where
    "generateCacheKey (p_messages p) (model_of p) (temperature_of p) = Inr key" by blast
  then show ?thesis using assms(2,3)
    by (simp add: createChatCompletion_def Let_def APICache_get_def canMakeRequest_def
         recordRequest_def request_def maxRequests_def window_def)
qed


lemma first_call_outcome:
  assumes "\<forall>m \<in> set (p_messages p). \<forall>u \<in> set (content m). u \<le> 255"
    and "cache st = []" and "rateLimiter st chat_identifier = None"
  shows "fst (createChatCompletion st p clk out) =
           (case out of Inl e \<Rightarrow> Inl (handleError e) | Inr c \<Rightarrow> Inr (response_of c)) \<and>
         window (snd (createChatCompletion st p clk out)) = [t_record clk] \<and>
         invoked (snd (createChatCompletion st p clk out)) \<noteq> invoked st"
proof -
  from latin1_key [OF assms(1)] obtain key where
    "generateCacheKey (p_messages p) (model_of p) (temperature_of p) = Inr key" by blast
  then show ?thesis using assms(2,3)
    by (cases out)
       (simp_all add: createChatCompletion_def Let_def APICache_get_def canMakeRequest_def
         recordRequest_def request_def maxRequests_def window_def)
qed

lemma limiter_independent_of_outcome:
  "rateLimiter (snd (createChatCompletion st p clk out)) =
   rateLimiter (snd (createChatCompletion st p clk out'))"
proof (cases "generateCacheKey (p_messages p) (model_of p) (temperature_of p)")
  case (Inl e)
  then show ?thesis by (simp add: createChatCompletion_def Let_def)
next
  case (Inr key)
  obtain hit c1 where look:
    "(if useCache_of p then APICache_get (cache st) key (t_get clk) else (None, cache st)) = (hit, c1)"
    by (cases "if useCache_of p then APICache_get (cache st) key (t_get clk) else (None, cache st)")
  obtain ok rl1 where lim: "canMakeRequest (rateLimiter st) chat_identifier (t_check clk) = (ok, rl1)"
    by (cases "canMakeRequest (rateLimiter st) chat_identifier (t_check clk)")
  show ?thesis
    using Inr look lim
    by (cases hit; cases ok; cases out; cases out')
       (simp_all add: createChatCompletion_def Let_def request_def)
qed

lemma request_outcome:
  "fst (request st req key uc clk out) =
     (case out of Inl err \<Rightarrow> Inl (handleError err) | Inr c \<Rightarrow> Inr (response_of c))"
  by (cases out) (simp_all add: request_def Let_def)

lemma invoked_outcome:
  assumes "createChatCompletion st p clk out = (res, st')" and "invoked st' \<noteq> invoked st"
  shows "res = (case out of Inl err \<Rightarrow> Inl (handleError err) | Inr c \<Rightarrow> Inr (response_of c))"
proof (cases "generateCacheKey (p_messages p) (model_of p) (temperature_of p)")
  case (Inl e)
  with assms show ?thesis by (auto simp: createChatCompletion_def Let_def)
next
  case (Inr key)
  obtain hit c1 where look:
    "(if useCache_of p then APICache_get (cache st) key (t_get clk) else (None, cache st)) = (hit, c1)"
    by (cases "if useCache_of p then APICache_get (cache st) key (t_get clk) else (None, cache st)")
  obtain ok rl1 where lim: "canMakeRequest (rateLimiter st) chat_identifier (t_check clk) = (ok, rl1)"
    by (cases "canMakeRequest (rateLimiter st) chat_identifier (t_check clk)")
  show ?thesis
  proof (cases hit)
    case (Some cached)
    with Inr look assms show ?thesis by (auto simp: createChatCompletion_def Let_def)
  next
    case None
    show ?thesis
    proof (cases ok)
      case False
      with None Inr look lim assms show ?thesis by (auto simp: createChatCompletion_def Let_def)
    next
      case True
      with None Inr look lim assms(1) request_outcome show ?thesis
        by (simp add: createChatCompletion_def Let_def) (metis fst_conv)
    qed
  qed
qed

text \<open>
  C9 as stated fails. On a fresh client, a call whose provider call fails with status 401
  is rejected with the classified error, and the rate-limiter window, empty before, holds
  the timestamp of the request afterwards.
\<close>

theorem timestamp_recorded_on_failure_counterexample:
  "fst (createChatCompletion client0 (params_of msgs_a) (clock_at 7) (Inl error401)) =
     Inl (Error (js ''Invalid API key. Please check your OpenAI configuration.'')) \<and>
   window client0 = [] \<and>
   window (snd (createChatCompletion client0 (params_of msgs_a) (clock_at 7) (Inl error401))) = [7]"
proof -
  have latin: "\<forall>m \<in> set (p_messages (params_of msgs_a)). \<forall>u \<in> set (content m). u \<le> 255"
    by (auto simp: params_of_def msgs_a_def js_def)
  have "handleError error401 = Error (js ''Invalid API key. Please check your OpenAI configuration.'')"
    by (simp add: handleError_def error401_def)
  with first_call_outcome [OF latin, of client0 "clock_at 7" "Inl error401"] show ?thesis
    by (simp add: client0_def window_def clock_at_def)
qed

text \<open>
  C9, amended. For every request that is sent to the provider, a timestamp is recorded
  against the rate limiter whether the provider call succeeds or fails: afterwards the
  window holds the timestamps that were still inside the window at the check, followed by
  the new one, and the rate limiter's state after the call is the same for every outcome
  of the provider call. When the provider call fails the caller gets the classified error
  (and the timestamp stays recorded); when it succeeds the caller gets the response built
  from the completion.
\<close>

theorem timestamp_recorded_whatever_the_outcome:
  assumes "createChatCompletion st p clk out = (res, st')" and "invoked st' \<noteq> invoked st"
  shows "window st' = filter (\<lambda>t. t > t_check clk - windowMs) (window st) @ [t_record clk] \<and>
         (\<forall>out'. rateLimiter (snd (createChatCompletion st p clk out')) = rateLimiter st') \<and>
         (\<forall>err. out = Inl err \<longrightarrow> res = Inl (handleError err)) \<and>
         (\<forall>c. out = Inr c \<longrightarrow> res = Inr (response_of c))"
proof -
  from createChatCompletion_step [OF assms(1)] assms(2)
  have "window st' = filter (\<lambda>t. t > t_check clk - windowMs) (window st) @ [t_record clk]"
    by (cases "reached_limiter res";
        cases "length (filter (\<lambda>t. t > t_check clk - windowMs) (window st)) < maxRequests")
       simp_all
  moreover have "rateLimiter (snd (createChatCompletion st p clk out')) = rateLimiter st'" for out'
    using limiter_independent_of_outcome [of st p clk out' out] assms(1) by simp
  moreover from invoked_outcome [OF assms]
  have "(\<forall>err. out = Inl err \<longrightarrow> res = Inl (handleError err)) \<and>
        (\<forall>c. out = Inr c \<longrightarrow> res = Inr (response_of c))"
    by simp
  ultimately show ?thesis by simp
qed

theorem timestamp_recorded_whatever_the_outcome_witness:
  "window (snd (createChatCompletion client0 (params_of msgs_b) (clock_at 9) (Inl error401))) = [9] \<and>
   rateLimiter (snd (createChatCompletion client0 (params_of msgs_b) (clock_at 9) (Inr completion0))) =
   rateLimiter (snd (createChatCompletion client0 (params_of msgs_b) (clock_at 9) (Inl error401))) \<and>
   fst (createChatCompletion client0 (params_of msgs_b) (clock_at 9) (Inl error401)) =
     Inl (handleError error401)"
proof -
  let ?r = "createChatCompletion client0 (params_of msgs_b) (clock_at 9) (Inl error401)"
  have latin: "\<forall>m \<in> set (p_messages (params_of msgs_b)). \<forall>u \<in> set (content m). u \<le> 255"
    by (auto simp: params_of_def msgs_b_def js_def)
  have h1: "?r = (fst ?r, snd ?r)" by simp
  have h2: "invoked (snd ?r) \<noteq> invoked client0"
    using first_call_outcome [OF latin, of client0 "clock_at 9" "Inl error401"]
    by (simp add: client0_def)
  have "window client0 = []" by (simp add: window_def client0_def)
  with timestamp_recorded_whatever_the_outcome [OF h1 h2] show ?thesis
    by (simp add: clock_at_def)
qed

lemma base64_append:
  "length p mod 3 = 0 \<Longrightarrow> base64 (p @ s) = base64 p @ base64 s"
  by (induction p rule: base64.induct) simp_all

lemma base64_length:
  "length p mod 3 = 0 \<Longrightarrow> length (base64 p) = 4 * (length p div 3)"
proof (induction p rule: base64.induct)
  case (1 a b c rest)
  have "(3 + length rest) div 3 = Suc (length rest div 3)" by simp
  with 1 show ?case by simp
qed simp_all

lemma base64_take_50:
  assumes "length p = 39"
  shows "take 50 (base64 (p @ s)) = take 50 (base64 p)"
proof -
  have "length (base64 p) = 52" using assms base64_length [of p] by simp
  moreover have "base64 (p @ s) = base64 p @ base64 s"
    using assms by (intro base64_append) simp
  ultimately show ?thesis by simp
qed

lemma generateCacheKey_roles:
  "generateCacheKey (map (\<lambda>m. m\<lparr>role := f m\<rparr>) msgs) model temp = generateCacheKey msgs model temp"
proof -
  have "map content (map (\<lambda>m. m\<lparr>role := f m\<rparr>) msgs) = map content msgs" by simp
  then show ?thesis by (simp only: generateCacheKey_def)
qed

lemma generateCacheKey_prefix:
  assumes "length p = 39" and "\<forall>u \<in> set (p @ s1 @ s2). u \<le> 255"
  shows "generateCacheKey [\<lparr>role = r1, content = p @ s1\<rparr>] model temp =
         generateCacheKey [\<lparr>role = r2, content = p @ s2\<rparr>] model temp"
proof -
  have "\<not> (\<exists>u \<in> set (p @ s1). u > 255)" "\<not> (\<exists>u \<in> set (p @ s2). u > 255)"
    using assms(2) by force+
  then have "btoa (p @ s1) = Inr (base64 (p @ s1))" "btoa (p @ s2) = Inr (base64 (p @ s2))"
    by (simp_all only: btoa_def if_False)
  then show ?thesis
    using base64_take_50 [OF assms(1)] by (simp add: generateCacheKey_def Let_def)
qed

text \<open>
  C10. The cache key is \<open>chat:\<close>, the model, \<open>:\<close>, the temperature, \<open>:\<close> and the first 50
  characters of the Base64 encoding of the message contents joined by \<open>|\<close>. The roles do
  not enter it, and neither does anything after the first 39 characters of the joined
  contents: two one-message requests whose contents share their first 39 characters have
  the same key whatever follows and whatever the roles. When a cache-eligible call was
  answered by the provider, a later cache-eligible call with the same key is answered
  with the response stored for the first while the entry is live, however its messages
  differ.
\<close>

theorem cache_key_collisions:
  "(\<forall>msgs model temp b.
      btoa (join (js ''|'') (map content msgs)) = Inr b \<longrightarrow>
        generateCacheKey msgs model temp =
          Inr (js ''chat:'' @ model @ js '':'' @ temp @ js '':'' @ take 50 b)) \<and>
   (\<forall>msgs f model temp.
      generateCacheKey (map (\<lambda>m. m\<lparr>role := f m\<rparr>) msgs) model temp =
      generateCacheKey msgs model temp) \<and>
   (\<forall>p s1 s2 r1 r2 model temp.
      length p = 39 \<and> (\<forall>u \<in> set (p @ s1 @ s2). u \<le> 255) \<longrightarrow>
        generateCacheKey [\<lparr>role = r1, content = p @ s1\<rparr>] model temp =
        generateCacheKey [\<lparr>role = r2, content = p @ s2\<rparr>] model temp) \<and>
   (\<forall>st p1 p2 clk1 clk2 cpl out2 resp st1.
      generateCacheKey (p_messages p2) (model_of p2) (temperature_of p2) =
        generateCacheKey (p_messages p1) (model_of p1) (temperature_of p1) \<and>
      useCache_of p1 \<and> useCache_of p2 \<and>
      createChatCompletion st p1 clk1 (Inr cpl) = (Inr resp, st1) \<and> \<not> fromCache resp \<and>
      t_get clk2 \<le> t_set2 clk1 + defaultTTL \<longrightarrow>
        createChatCompletion st1 p2 clk2 out2 = (Inr (resp\<lparr>fromCache := True\<rparr>), st1))"
proof -
  have a: "generateCacheKey msgs model temp =
          Inr (js ''chat:'' @ model @ js '':'' @ temp @ js '':'' @ take 50 b)"
    if "btoa (join (js ''|'') (map content msgs)) = Inr b" for msgs model temp b
    using that by (simp add: generateCacheKey_def Let_def)
  have c: "generateCacheKey [\<lparr>role = r1, content = p @ s1\<rparr>] model temp =
        generateCacheKey [\<lparr>role = r2, content = p @ s2\<rparr>] model temp"
    if "length p = 39 \<and> (\<forall>u \<in> set (p @ s1 @ s2). u \<le> 255)" for p s1 s2 r1 r2 model temp
    using that generateCacheKey_prefix by blast
  have d: "createChatCompletion st1 p2 clk2 out2 = (Inr (resp\<lparr>fromCache := True\<rparr>), st1)"
    if h: "generateCacheKey (p_messages p2) (model_of p2) (temperature_of p2) =
        generateCacheKey (p_messages p1) (model_of p1) (temperature_of p1) \<and>
      useCache_of p1 \<and> useCache_of p2 \<and>
      createChatCompletion st p1 clk1 (Inr cpl) = (Inr resp, st1) \<and> \<not> fromCache resp \<and>
      t_get clk2 \<le> t_set2 clk1 + defaultTTL"
    for st p1 p2 clk1 clk2 cpl out2 resp st1
  proof -
    have "createChatCompletion st1 p2 clk2 out2 = (Inr (resp\<lparr>fromCache := True\<rparr>), st1) \<and>
          length (invoked st1) = Suc (length (invoked st))"
    proof (rule second_call_served_from_cache)
      show "createChatCompletion st p1 clk1 (Inr cpl) = (Inr resp, st1)" using h by simp
      show "\<not> fromCache resp" using h by simp
      show "useCache_of p1" "useCache_of p2" using h by simp_all
      show "generateCacheKey (p_messages p2) (model_of p2) (temperature_of p2) =
            generateCacheKey (p_messages p1) (model_of p1) (temperature_of p1)" using h by simp
      show "t_get clk2 \<le> t_set2 clk1 + defaultTTL" using h by simp
    qed
    then show ?thesis by simp
  qed
  show ?thesis
  proof (intro conjI allI impI)
    fix msgs :: "message list" and model temp b
    assume "btoa (join (js ''|'') (map content msgs)) = Inr b"
    then show "generateCacheKey msgs model temp =
          Inr (js ''chat:'' @ model @ js '':'' @ temp @ js '':'' @ take 50 b)" by (rule a)
  next
    fix msgs :: "message list" and f model temp
    show "generateCacheKey (map (\<lambda>m. m\<lparr>role := f m\<rparr>) msgs) model temp =
          generateCacheKey msgs model temp" by (rule generateCacheKey_roles)
  next
    fix p s1 s2 :: jsstring and r1 r2 model temp
    assume "length p = 39 \<and> (\<forall>u \<in> set (p @ s1 @ s2). u \<le> 255)"
    then show "generateCacheKey [\<lparr>role = r1, content = p @ s1\<rparr>] model temp =
        generateCacheKey [\<lparr>role = r2, content = p @ s2\<rparr>] model temp" by (rule c)
  next
    fix st st1 :: client and p1 p2 :: params and clk1 clk2 :: clock and cpl out2
      and resp :: response
    assume "generateCacheKey (p_messages p2) (model_of p2) (temperature_of p2) =
        generateCacheKey (p_messages p1) (model_of p1) (temperature_of p1) \<and>
      useCache_of p1 \<and> useCache_of p2 \<and>
      createChatCompletion st p1 clk1 (Inr cpl) = (Inr resp, st1) \<and> \<not> fromCache resp \<and>
      t_get clk2 \<le> t_set2 clk1 + defaultTTL"
    then show "createChatCompletion st1 p2 clk2 out2 = (Inr (resp\<lparr>fromCache := True\<rparr>), st1)"
      by (rule d)
  qed
qed

theorem cache_key_collisions_witness:
  "msgs_a \<noteq> msgs_b \<and>
   generateCacheKey msgs_a (js ''gpt-4o-mini'') (js ''0.7'') =
   generateCacheKey msgs_b (js ''gpt-4o-mini'') (js ''0.7'') \<and>
   fst (createChatCompletion
         (snd (createChatCompletion client0 (params_of msgs_a) (clock_at 0) (Inr completion0)))
         (params_of msgs_b) (clock_at 1000) (Inl error401)) =
     Inr ((response_of completion0)\<lparr>fromCache := True\<rparr>)"
proof -
  let ?first = "createChatCompletion client0 (params_of msgs_a) (clock_at 0) (Inr completion0)"
  have ne: "msgs_a \<noteq> msgs_b" by (simp add: msgs_a_def msgs_b_def)
  have "length (replicate 39 (97::nat)) = 39 \<and>
        (\<forall>u \<in> set (replicate 39 (97::nat) @ js ''X'' @ js ''Y''). u \<le> 255)"
    by (auto simp: js_def)
  with cache_key_collisions
  have key: "generateCacheKey msgs_a model temp = generateCacheKey msgs_b model temp" for model temp
    unfolding msgs_a_def msgs_b_def by blast
  have latin: "\<forall>m \<in> set (p_messages (params_of msgs_a)). \<forall>u \<in> set (content m). u \<le> 255"
    by (auto simp: params_of_def msgs_a_def js_def)
  have "fst ?first = Inr (response_of completion0)"
    using first_call_answered [OF latin, of client0] by (simp add: client0_def)
  then have first: "?first = (Inr (response_of completion0), snd ?first)"
    by (metis prod.collapse)
  have h: "generateCacheKey (p_messages (params_of msgs_b)) (model_of (params_of msgs_b))
             (temperature_of (params_of msgs_b)) =
           generateCacheKey (p_messages (params_of msgs_a)) (model_of (params_of msgs_a))
             (temperature_of (params_of msgs_a)) \<and>
      useCache_of (params_of msgs_a) \<and> useCache_of (params_of msgs_b) \<and>
      ?first = (Inr (response_of completion0), snd ?first) \<and>
      \<not> fromCache (response_of completion0) \<and>
      t_get (clock_at 1000) \<le> t_set2 (clock_at 0) + defaultTTL"
    using first key
    by (simp add: useCache_of_def model_of_def temperature_of_def params_of_def response_of_def
          clock_at_def defaultTTL_def)
  from cache_key_collisions h
  have "createChatCompletion (snd ?first) (params_of msgs_b) (clock_at 1000) (Inl error401) =
          (Inr ((response_of completion0)\<lparr>fromCache := True\<rparr>), snd ?first)"
    by blast
  with ne key show ?thesis by simp
qed

section \<open>Properties of the workflow state\<close>

text \<open>
  C7 as stated fails. The reducer has no failure: on a workflow whose step \<open>step-1\<close> is
  completed, the update to pending is applied, although completed to pending is not an
  allowed transition; and an update for the absent \<open>step-9\<close> returns the state unchanged.
\<close>

theorem invalid_transition_counterexample:
  "\<not> spec_allowed_transition Completed Pending \<and>
   map ws_status (workflow app_done) = [Completed] \<and>
   map ws_status (workflow (appReducer app_done
      (UPDATE_WORKFLOW_STEP (status_update (js ''step-1'') Pending)))) = [Pending] \<and>
   js ''step-9'' \<notin> ws_id ` set (workflow app_done) \<and>
   appReducer app_done (UPDATE_WORKFLOW_STEP (status_update (js ''step-9'') Active)) = app_done"
  by (simp add: spec_allowed_transition_def app_done_def appReducer_def status_update_def step_def
        merge_step_def js_def Let_def)

text \<open>
  C7, amended. \<^verbatim>\<open>UPDATE_WORKFLOW_STEP\<close> never fails and checks no transition. The steps
  keep their number, order and ids. When no step has the payload's id the workflow is
  unchanged. Otherwise every step with that id is replaced in place by its merge with the
  payload, so that a status in the payload becomes the step's status whatever it was before,
  and every other step is unchanged.
\<close>

theorem update_workflow_step_unchecked:
  "length (workflow (appReducer st (UPDATE_WORKFLOW_STEP payload))) = length (workflow st) \<and>
   map ws_id (workflow (appReducer st (UPDATE_WORKFLOW_STEP payload))) = map ws_id (workflow st) \<and>
   (u_id payload \<notin> ws_id ` set (workflow st) \<longrightarrow>
      workflow (appReducer st (UPDATE_WORKFLOW_STEP payload)) = workflow st) \<and>
   (\<forall>i < length (workflow st).
      (ws_id (workflow st ! i) = u_id payload \<longrightarrow>
         workflow (appReducer st (UPDATE_WORKFLOW_STEP payload)) ! i =
           merge_step (workflow st ! i) payload \<and>
         (\<forall>new. u_status payload = Some new \<longrightarrow>
            ws_status (workflow (appReducer st (UPDATE_WORKFLOW_STEP payload)) ! i) = new)) \<and>
      (ws_id (workflow st ! i) \<noteq> u_id payload \<longrightarrow>
         workflow (appReducer st (UPDATE_WORKFLOW_STEP payload)) ! i = workflow st ! i))"
proof -
  let ?f = "\<lambda>step. if ws_id step = u_id payload then merge_step step payload else step"
  have wf: "workflow (appReducer st (UPDATE_WORKFLOW_STEP payload)) = map ?f (workflow st)"
    by (simp add: appReducer_def Let_def)
  have ids: "map ws_id (map ?f (workflow st)) = map ws_id (workflow st)"
    by (simp add: merge_step_def)
  have same: "u_id payload \<notin> ws_id ` set (workflow st) \<Longrightarrow> map ?f (workflow st) = workflow st"
    by (intro map_idI) (metis imageI)
  show ?thesis unfolding wf using ids same by (auto simp: merge_step_def)
qed

theorem update_workflow_step_unchecked_witness:
  "workflow (appReducer app_done (UPDATE_WORKFLOW_STEP (status_update (js ''step-1'') Active))) ! 0 =
     merge_step (workflow app_done ! 0) (status_update (js ''step-1'') Active) \<and>
   ws_status (workflow (appReducer app_done
      (UPDATE_WORKFLOW_STEP (status_update (js ''step-1'') Active))) ! 0) = Active \<and>
   workflow (appReducer app_done (UPDATE_WORKFLOW_STEP (status_update (js ''step-9'') Active))) =
     workflow app_done"
proof -
  have a: "0 < length (workflow app_done)" by (simp add: app_done_def)
  have b: "ws_id (workflow app_done ! 0) = u_id (status_update (js ''step-1'') Active)"
    by (simp add: app_done_def status_update_def step_def)
  have c: "u_status (status_update (js ''step-1'') Active) = Some Active"
    by (simp add: status_update_def)
  have d: "u_id (status_update (js ''step-9'') Active) \<notin> ws_id ` set (workflow app_done)"
    by (simp add: app_done_def status_update_def step_def js_def)
  from update_workflow_step_unchecked [of app_done "status_update (js ''step-1'') Active"] a b c
       update_workflow_step_unchecked [of app_done "status_update (js ''step-9'') Active"] d
  show ?thesis by blast
qed

lemma createWorkflowSteps_nth:
  "i < length keys \<Longrightarrow> createWorkflowSteps keys ! i = createWorkflowStep (keys ! i) i"
  by (simp add: createWorkflowSteps_def)

text \<open>
  C8 as stated fails. For the message \<open>forecast\<close>, \<^verbatim>\<open>selectAgent\<close> plans the agents eda
  and forecasting, and the steps that \<^verbatim>\<open>createWorkflowSteps\<close> makes for them and
  \<^verbatim>\<open>SET_WORKFLOW\<close> registers have the statuses active, pending.
\<close>

theorem first_step_active_counterexample:
  "selectAgent (\<lambda>s. s) (js ''forecast'') = [js ''eda'', js ''forecasting''] \<and>
   map ws_status (workflow (appReducer app0
      (SET_WORKFLOW (createWorkflowSteps [js ''eda'', js ''forecasting''])))) = [Active, Pending]"
  by (simp add: selectAgent_def regex_test_i_def js_def ascii_lower_def Let_def
        appReducer_def createWorkflowSteps_def createWorkflowStep_def upt_rec)

section \<open>Properties of the chat handlers\<close>

lemma enhanced_loop_submits_all:
  assumes "\<forall>k \<in> set ks. map_of ENHANCED_AGENTS k \<noteq> None"
  shows "length (x_submitted (snd (generateEnhancedResponse_loop env m n i ks r))) =
           length (x_submitted r) + length ks \<and>
         x_app (snd (generateEnhancedResponse_loop env m n i ks r)) = x_app r"
  using assms
proof (induction ks arbitrary: i r)
  case Nil
  then show ?case by simp
next
  case (Cons k ks)
  then obtain agent where ag: "map_of ENHANCED_AGENTS k = Some agent" by auto
  from Cons.prems have rest: "\<forall>k \<in> set ks. map_of ENHANCED_AGENTS k \<noteq> None" by simp
  show ?case
  proof (cases "env_answer env i")
    case (Threw e)
    with ag Cons.IH [OF rest] show ?thesis by (simp add: Let_def)
  next
    case (Answered c)
    with ag Cons.IH [OF rest] show ?thesis by (simp add: Let_def)
  qed
qed

lemma first_keyword_agent_in_table:
  "first_keyword_agent tbl m = Some (k, a, w) \<Longrightarrow> (k, a) \<in> set tbl"
  by (induction tbl m rule: first_keyword_agent.induct) (auto split: if_splits option.splits)

lemma ENHANCED_AGENTS_distinct: "distinct (map fst ENHANCED_AGENTS)"
  by (simp add: ENHANCED_AGENTS_def js_def)

lemma selectOptimalAgents_agents:
  "agents (selectOptimalAgents lower m hasData) = [js ''onboarding''] \<or>
   agents (selectOptimalAgents lower m hasData) =
     map js [''eda'', ''preprocessing'', ''modeling'', ''validation'', ''forecasting'', ''insights''] \<or>
   agents (selectOptimalAgents lower m hasData) = [js ''general''] \<or>
   (\<exists>k a w. first_keyword_agent ENHANCED_AGENTS (lower m) = Some (k, a, w) \<and>
            agents (selectOptimalAgents lower m hasData) = [k])"
  by (simp add: selectOptimalAgents_def Let_def split: option.splits)

lemma selectOptimalAgents_valid:
  "\<forall>k \<in> set (agents (selectOptimalAgents lower m hasData)). map_of ENHANCED_AGENTS k \<noteq> None"
proof -
  have a: "map_of ENHANCED_AGENTS (js ''onboarding'') \<noteq> None"
    and b: "\<forall>k \<in> set (map js [''eda'', ''preprocessing'', ''modeling'', ''validation'',
               ''forecasting'', ''insights'']). map_of ENHANCED_AGENTS k \<noteq> None"
    and c: "map_of ENHANCED_AGENTS (js ''general'') \<noteq> None"
    by (simp_all add: ENHANCED_AGENTS_def js_def)
  have found: "map_of ENHANCED_AGENTS k \<noteq> None"
    if "first_keyword_agent ENHANCED_AGENTS (lower m) = Some (k, a, w)" for k a w
  proof -
    from first_keyword_agent_in_table [OF that] have "(k, a) \<in> set ENHANCED_AGENTS" .
    with ENHANCED_AGENTS_distinct have "map_of ENHANCED_AGENTS k = Some a"
      by (rule map_of_is_SomeI)
    then show ?thesis by simp
  qed
  from selectOptimalAgents_agents [of lower m hasData] show ?thesis
  proof (elim disjE exE conjE)
    assume "agents (selectOptimalAgents lower m hasData) = [js ''onboarding'']"
    with a show ?thesis by simp
  next
    assume "agents (selectOptimalAgents lower m hasData) =
      map js [''eda'', ''preprocessing'', ''modeling'', ''validation'', ''forecasting'', ''insights'']"
    with b show ?thesis by (simp only:)
  next
    assume "agents (selectOptimalAgents lower m hasData) = [js ''general'']"
    with c show ?thesis by simp
  next
    fix k a w
    assume "first_keyword_agent ENHANCED_AGENTS (lower m) = Some (k, a, w)"
      and "agents (selectOptimalAgents lower m hasData) = [k]"
    with found show ?thesis by simp
  qed
qed

lemma generateEnhancedResponse_submits_all:
  assumes "validateChatMessage msg = None"
  shows "length (x_submitted (snd (generateEnhancedResponse env msg hasData h st))) =
         length (agents (selectOptimalAgents (env_toLowerCase env) (env_sanitize env msg) hasData))"
proof -
  let ?p = "selectOptimalAgents (env_toLowerCase env) (env_sanitize env msg) hasData"
  let ?start = "\<lparr>x_finalResponse = [], x_finalReportData = None,
                   x_finalAgentType = js ''general'', x_aggregatedInsights = [],
                   x_conversationHistory = h, x_app = st, x_submitted = []\<rparr>"
  let ?start1 = "if length (plan_workflow ?p) > 1
                 then ?start\<lparr>x_app := appReducer st (SET_WORKFLOW (plan_workflow ?p))\<rparr>
                 else ?start"
  obtain res r where loop:
    "generateEnhancedResponse_loop env (env_sanitize env msg) (length (agents ?p)) 0 (agents ?p) ?start1
       = (res, r)"
    by (cases "generateEnhancedResponse_loop env (env_sanitize env msg) (length (agents ?p)) 0
                 (agents ?p) ?start1")
  have "x_submitted ?start1 = []" by simp
  with enhanced_loop_submits_all [OF selectOptimalAgents_valid,
         of env "env_sanitize env msg" "length (agents ?p)" 0 "env_toLowerCase env" "env_sanitize env msg"
            hasData ?start1] loop
  have len: "length (x_submitted r) = length (agents ?p)" by simp
  have "x_submitted (snd (generateEnhancedResponse env msg hasData h st)) = x_submitted r"
    using assms loop by (cases res) (simp_all add: generateEnhancedResponse_def Let_def)
  with len show ?thesis by simp
qed

lemma selectOptimalAgents_forecast:
  "agents (selectOptimalAgents (\<lambda>s. s) (js ''forecast'') True) =
     map js [''eda'', ''preprocessing'', ''modeling'', ''validation'', ''forecasting'', ''insights'']"
  by (simp add: selectOptimalAgents_def regex_test_i_def js_def ascii_lower_def Let_def)

text \<open>
  C5 at a failing input. For the message \<open>forecast\<close>, \<^verbatim>\<open>selectOptimalAgents\<close> plans six
  agents. When the first request of \<^verbatim>\<open>generateEnhancedResponse\<close> fails with the
  invalid-key error (and so does every later one), the handler still submits a request
  for each of the six agents: the failure does not halt the pipeline. By
  \<open>generateEnhancedResponse_submits_all\<close> this holds for every valid message and every
  way the requests end, while \<^verbatim>\<open>generateResponse\<close> of the other handler stops at the
  first failure (\<open>generateResponse_loop_stops\<close>).
\<close>

theorem enhanced_handler_continues_after_unauthorized:
  "agents (selectOptimalAgents (\<lambda>s. s) (js ''forecast'') True) =
     map js [''eda'', ''preprocessing'', ''modeling'', ''validation'', ''forecasting'', ''insights''] \<and>
   env_answer env_unauthorized 0 =
     Threw (Some (js ''Invalid API key. Please check your OpenAI configuration.'')) \<and>
   length (x_submitted (snd (generateEnhancedResponse env_unauthorized (js ''forecast'') True [] app0))) = 6"
proof -
  have v: "validateChatMessage (js ''forecast'') = None"
    by (simp add: validateChatMessage_def trim_def is_ws_def js_def)
  have "length (x_submitted (snd (generateEnhancedResponse env_unauthorized (js ''forecast'') True [] app0))) =
        length (agents (selectOptimalAgents (\<lambda>s. s) (js ''forecast'') True))"
    using generateEnhancedResponse_submits_all [OF v, of env_unauthorized True "[]" app0]
    by (simp add: env_unauthorized_def)
  then show ?thesis
    by (simp add: selectOptimalAgents_forecast env_unauthorized_def)
qed

lemma dispatch_fields [simp]:
  "app (dispatch a r) = appReducer (app r) a"
  "effects (dispatch a r) = effects r @ [Dispatched a]"
  "requests (dispatch a r) = requests r"
  "conversationHistory (dispatch a r) = conversationHistory r"
  "finalResponse (dispatch a r) = finalResponse r"
  "finalReportData (dispatch a r) = finalReportData r"
  "finalAgentType (dispatch a r) = finalAgentType r"
  by (simp_all add: dispatch_def)

lemma send_fields [simp]:
  "app (send q r) = app r"
  "effects (send q r) = effects r @ [Requested q]"
  "requests (send q r) = requests r @ [q]"
  "conversationHistory (send q r) = conversationHistory r"
  "finalResponse (send q r) = finalResponse r"
  "finalReportData (send q r) = finalReportData r"
  "finalAgentType (send q r) = finalAgentType r"
  by (simp_all add: send_def)

lemma generateResponse_loop_stops:
  assumes "env_answer env i = Threw e" and "map_of AGENTS k = Some agent"
  shows "fst (generateResponse_loop env m i (k # rest) r) =
           Inr \<lparr>res_response = connection_apology, res_agentType = js ''general'',
                res_reportData = None\<rparr> \<and>
         length (requests (snd (generateResponse_loop env m i (k # rest) r))) =
           Suc (length (requests r))"
  using assms by (simp add: Let_def)

lemma generateResponse_loop_failure_discards:
  assumes "\<forall>k \<in> set ks. map_of AGENTS k \<noteq> None"
    and "j < length ks" and "env_answer env (i + j) = Threw e"
  shows "fst (generateResponse_loop env m i ks r) =
           Inr \<lparr>res_response = connection_apology, res_agentType = js ''general'',
                res_reportData = None\<rparr>"
  using assms
proof (induction ks arbitrary: i j r)
  case Nil
  then show ?case by simp
next
  case (Cons k ks)
  then obtain agent where ag: "map_of AGENTS k = Some agent" by auto
  show ?case
  proof (cases "env_answer env i")
    case (Threw e')
    with ag show ?thesis by (simp add: Let_def)
  next
    case (Answered c)
    with Cons.prems(3) obtain j' where j: "j = Suc j'" by (cases j) auto
    with Cons.prems have "\<forall>k \<in> set ks. map_of AGENTS k \<noteq> None" "j' < length ks"
      "env_answer env (Suc i + j') = Threw e" by simp_all
    from Cons.IH [OF this] Answered ag show ?thesis by (simp add: Let_def)
  qed
qed

text \<open>
  C6 at a failing input. For the message \<open>forecast\<close>, \<^verbatim>\<open>selectAgent\<close> plans the agents
  eda and forecasting. When the first step completes with the text \<open>Sales rise.\<close> and the
  second fails, \<^verbatim>\<open>generateResponse\<close> returns the fixed apology, in which the completed
  step's text does not occur, with the agent type general and no report. By
  \<open>generateResponse_loop_failure_discards\<close> this is the value returned whenever a step
  fails.
\<close>

theorem completed_output_discarded_on_failure:
  "selectAgent (\<lambda>s. s) (js ''forecast'') = [js ''eda'', js ''forecasting''] \<and>
   env_answer env_second_fails 0 = Answered (Some (js ''Sales rise.'')) \<and>
   fst (generateResponse env_second_fails (js ''forecast'') [] app0) =
     Inr \<lparr>res_response = connection_apology, res_agentType = js ''general'', res_reportData = None\<rparr> \<and>
   \<not> str_includes connection_apology (js ''Sales rise.'')"
proof -
  have sel: "selectAgent (\<lambda>s. s) (js ''forecast'') = [js ''eda'', js ''forecasting'']"
    by (simp add: selectAgent_def regex_test_i_def js_def ascii_lower_def Let_def)
  have valid: "\<forall>k \<in> set [js ''eda'', js ''forecasting'']. map_of AGENTS k \<noteq> None"
    by (simp add: AGENTS_def js_def)
  have "env_answer env_second_fails (0 + 1) =
          Threw (Some (js ''Network connection failed. Please check your internet connection.''))"
    by (simp add: env_second_fails_def)
  from generateResponse_loop_failure_discards [OF valid _ this]
  have "fst (generateResponse env_second_fails (js ''forecast'') [] app0) =
     Inr \<lparr>res_response = connection_apology, res_agentType = js ''general'', res_reportData = None\<rparr>"
    by (simp add: generateResponse_def sel Let_def env_second_fails_def)
  moreover have "\<not> str_includes connection_apology (js ''Sales rise.'')"
    by (simp add: connection_apology_def js_def)
  ultimately show ?thesis using sel by (simp add: env_second_fails_def)
qed

section \<open>Registration and activation of workflow steps\<close>

lemma decimal_last: "last (decimal n) = 48 + n mod 10"
  by (subst decimal.simps) simp

lemma decimal_butlast: "butlast (decimal n) = (if n < 10 then [] else decimal (n div 10))"
  by (subst decimal.simps) (simp add: butlast_append)

lemma decimal_nonempty: "decimal n \<noteq> []"
  by (subst decimal.simps) simp

lemma decimal_inj: "decimal a = decimal b \<Longrightarrow> a = b"
proof (induction a arbitrary: b rule: decimal.induct)
  case (1 n)
  have "last (decimal n) = last (decimal b)" using "1.prems" by simp
  then have l: "n mod 10 = b mod 10" by (simp add: decimal_last)
  have bl: "butlast (decimal n) = butlast (decimal b)" using "1.prems" by simp
  show ?case
  proof (cases "n < 10")
    case True
    with bl have "b < 10" using decimal_nonempty [of "b div 10"]
      by (simp add: decimal_butlast split: if_splits)
    with True l show ?thesis by simp
  next
    case False
    with bl have "decimal (n div 10) = decimal (b div 10)"
      using decimal_nonempty [of "n div 10"] by (simp add: decimal_butlast split: if_splits)
    from "1.IH" [OF False this] have "n div 10 = b div 10" .
    with l show ?thesis by (metis div_mult_mod_eq)
  qed
qed

lemma createWorkflowSteps_length [simp]: "length (createWorkflowSteps keys) = length keys"
  by (simp add: createWorkflowSteps_def)

lemma createWorkflowSteps_id:
  "j < length keys \<Longrightarrow> ws_id (createWorkflowSteps keys ! j) = js ''step-'' @ decimal (j + 1)"
  by (simp add: createWorkflowSteps_def createWorkflowStep_def Let_def)

lemma createWorkflowSteps_distinct: "distinct (map ws_id (createWorkflowSteps keys))"
proof -
  have "map ws_id (createWorkflowSteps keys) =
          map (\<lambda>j. js ''step-'' @ decimal (j + 1)) [0..<length keys]"
    by (rule nth_equalityI) (simp_all add: createWorkflowSteps_id)
  then show ?thesis by (auto simp: distinct_map inj_on_def dest: decimal_inj)
qed

lemma status_update_workflow:
  "workflow (appReducer s (UPDATE_WORKFLOW_STEP (status_update sid st))) =
     map (\<lambda>x. if ws_id x = sid then x\<lparr>ws_status := st\<rparr> else x) (workflow s)"
  by (auto simp: appReducer_def Let_def status_update_def merge_step_def)

lemma status_update_statuses:
  assumes "distinct (map ws_id (workflow s))" and "j < length (workflow s)"
  shows "map ws_id (workflow (appReducer s
           (UPDATE_WORKFLOW_STEP (status_update (ws_id (workflow s ! j)) st)))) =
           map ws_id (workflow s) \<and>
         map ws_status (workflow (appReducer s
           (UPDATE_WORKFLOW_STEP (status_update (ws_id (workflow s ! j)) st)))) =
           (map ws_status (workflow s))[j := st]"
proof -
  have eq: "ws_id (workflow s ! i) = ws_id (workflow s ! j) \<longleftrightarrow> i = j"
    if "i < length (workflow s)" for i
    using assms that nth_eq_iff_index_eq [of "map ws_id (workflow s)" i j] by simp
  show ?thesis
    unfolding status_update_workflow
    by (intro conjI nth_equalityI) (auto simp: eq nth_list_update)
qed

lemma replay_append: "replay s (es @ es') = replay (replay s es) es'"
  by (simp add: replay_def)

lemma replay_step_block:
  "replay s (step_block sid q fin) =
     appReducer (appReducer s (UPDATE_WORKFLOW_STEP (status_update sid Active)))
       (UPDATE_WORKFLOW_STEP (status_update sid fin))"
  by (simp add: replay_def step_block_def)

lemma replay_dispatch: "replay s [Dispatched a] = appReducer s a"
  by (simp add: replay_def)

lemma replay_blocks:
  assumes "distinct (map ws_id wsteps)" and "a \<le> length wsteps"
  shows "map ws_id (workflow (replay state (Dispatched (SET_WORKFLOW wsteps) #
           concat (map (\<lambda>j. step_block (ws_id (wsteps ! j)) (q j) (fin j)) [0..<a])))) = map ws_id wsteps \<and>
         map ws_status (workflow (replay state (Dispatched (SET_WORKFLOW wsteps) #
           concat (map (\<lambda>j. step_block (ws_id (wsteps ! j)) (q j) (fin j)) [0..<a])))) =
           map fin [0..<a] @ drop a (map ws_status wsteps)"
  using assms(2)
proof (induction a)
  case 0
  show ?case by (simp add: replay_def appReducer_def)
next
  case (Suc a)
  let ?blk = "\<lambda>j. step_block (ws_id (wsteps ! j)) (q j) (fin j)"
  let ?S = "replay state (Dispatched (SET_WORKFLOW wsteps) # concat (map ?blk [0..<a]))"
  let ?S1 = "appReducer ?S (UPDATE_WORKFLOW_STEP (status_update (ws_id (wsteps ! a)) Active))"
  from Suc have a: "a < length wsteps" and ids: "map ws_id (workflow ?S) = map ws_id wsteps"
    and sts: "map ws_status (workflow ?S) = map fin [0..<a] @ drop a (map ws_status wsteps)"
    by simp_all
  from ids [THEN arg_cong, of length] have len: "length (workflow ?S) = length wsteps" by simp
  from ids [THEN arg_cong, of "\<lambda>xs. xs ! a"] a len
  have ida: "ws_id (workflow ?S ! a) = ws_id (wsteps ! a)" by simp
  have d: "distinct (map ws_id (workflow ?S))" using ids assms(1) by simp
  from status_update_statuses [OF d, of a Active] a len ida
  have ids1: "map ws_id (workflow ?S1) = map ws_id wsteps"
    and sts1: "map ws_status (workflow ?S1) = (map ws_status (workflow ?S))[a := Active]"
    using ids by simp_all
  from ids1 [THEN arg_cong, of length] have len1: "length (workflow ?S1) = length wsteps" by simp
  from ids1 [THEN arg_cong, of "\<lambda>xs. xs ! a"] a len1
  have ida1: "ws_id (workflow ?S1 ! a) = ws_id (wsteps ! a)" by simp
  have d1: "distinct (map ws_id (workflow ?S1))" using ids1 assms(1) by simp
  let ?S2 = "appReducer ?S1 (UPDATE_WORKFLOW_STEP (status_update (ws_id (wsteps ! a)) (fin a)))"
  from status_update_statuses [OF d1, of a "fin a"] a len1 ida1
  have ids2: "map ws_id (workflow ?S2) = map ws_id wsteps"
    and sts2: "map ws_status (workflow ?S2) = (map ws_status (workflow ?S1))[a := fin a]"
    using ids1 by simp_all
  have split: "drop a (map ws_status wsteps) = ws_status (wsteps ! a) # drop (Suc a) (map ws_status wsteps)"
    using a Cons_nth_drop_Suc [of a "map ws_status wsteps"] by simp
  have sts2': "map ws_status (workflow ?S2) = map fin [0..<Suc a] @ drop (Suc a) (map ws_status wsteps)"
    unfolding sts2 sts1 sts split by (simp add: list_update_append)
  have "replay state (Dispatched (SET_WORKFLOW wsteps) # concat (map ?blk [0..<Suc a])) =
          replay ?S (?blk a)"
    using replay_append [of state "Dispatched (SET_WORKFLOW wsteps) # concat (map ?blk [0..<a])" "?blk a"]
    by simp
  also have "\<dots> = ?S2" by (rule replay_step_block)
  finally show ?case using ids2 sts2' by simp
qed

lemma replay_activated:
  assumes "distinct (map ws_id wsteps)" and "a < length wsteps"
  shows "map ws_status (workflow (replay state ((Dispatched (SET_WORKFLOW wsteps) #
           concat (map (\<lambda>j. step_block (ws_id (wsteps ! j)) (q j) (fin j)) [0..<a])) @
           [Dispatched (UPDATE_WORKFLOW_STEP (status_update (ws_id (wsteps ! a)) Active))]))) =
           map fin [0..<a] @ Active # drop (Suc a) (map ws_status wsteps)"
proof -
  let ?blk = "\<lambda>j. step_block (ws_id (wsteps ! j)) (q j) (fin j)"
  let ?S = "replay state (Dispatched (SET_WORKFLOW wsteps) # concat (map ?blk [0..<a]))"
  let ?S1 = "appReducer ?S (UPDATE_WORKFLOW_STEP (status_update (ws_id (wsteps ! a)) Active))"
  from replay_blocks [OF assms(1), of a state q fin] assms(2)
  have ids: "map ws_id (workflow ?S) = map ws_id wsteps"
    and sts: "map ws_status (workflow ?S) = map fin [0..<a] @ drop a (map ws_status wsteps)"
    by simp_all
  from ids [THEN arg_cong, of length] have len: "length (workflow ?S) = length wsteps" by simp
  from ids [THEN arg_cong, of "\<lambda>xs. xs ! a"] assms(2) len
  have ida: "ws_id (workflow ?S ! a) = ws_id (wsteps ! a)" by simp
  have d: "distinct (map ws_id (workflow ?S))" using ids assms(1) by simp
  from status_update_statuses [OF d, of a Active] assms(2) len ida
  have sts1: "map ws_status (workflow ?S1) = (map ws_status (workflow ?S))[a := Active]"
    by simp
  have split: "drop a (map ws_status wsteps) = ws_status (wsteps ! a) # drop (Suc a) (map ws_status wsteps)"
    using assms(2) Cons_nth_drop_Suc [of a "map ws_status wsteps"] by simp
  have "map ws_status (workflow ?S1) = map fin [0..<a] @ Active # drop (Suc a) (map ws_status wsteps)"
    unfolding sts1 sts split by (simp add: list_update_append)
  then show ?thesis
    unfolding replay_append replay_dispatch .
qed

lemma generateResponse_loop_trace:
  assumes "generateResponse_loop env um i keys r = (res, r')" and "length (requests r) = i"
  shows "\<exists>m \<le> length keys.
           length (requests r') = i + m \<and> take i (requests r') = requests r \<and>
           effects r' = effects r @
             concat (map (\<lambda>j. step_block (js ''step-'' @ decimal (j + 1)) (requests r' ! j)
                                (case env_answer env j of Threw _ \<Rightarrow> ErrorStatus
                                                        | Answered _ \<Rightarrow> Completed))
                         [i..<i + m])"
  using assms
proof (induction keys arbitrary: i r)
  case Nil
  then show ?case by simp
next
  case (Cons k keys)
  show ?case
  proof (cases "map_of AGENTS k = None \<and> map_of object_prototype k = None")
    case True
    with Cons.prems have "r' = r" by simp
    with Cons.prems(2) show ?thesis by (intro exI [of _ 0]) simp
  next
    case False
    let ?sid = "js ''step-'' @ decimal (i + 1)"
    let ?r0 = "dispatch (UPDATE_WORKFLOW_STEP (status_update ?sid Active)) (r\<lparr>finalAgentType := k\<rparr>)"
    let ?h1 = "conversationHistory ?r0 @ [\<lparr>role = User, content = um\<rparr>]"
    let ?req = "\<lparr>r_model = js ''gpt-4o-mini'',
                 r_messages = \<lparr>role = System, content = env_prompt env k\<rparr> # ?h1,
                 r_temperature = js ''0.7'', r_max_tokens = 800\<rparr>"
    let ?r1 = "send ?req (?r0\<lparr>conversationHistory := ?h1\<rparr>)"
    have rq1: "requests ?r1 = requests r @ [?req]" by simp
    have ef1: "effects ?r1 = effects r @
                 [Dispatched (UPDATE_WORKFLOW_STEP (status_update ?sid Active)), Requested ?req]"
      by simp
    show ?thesis
    proof (cases "env_answer env i")
      case (Threw e)
      let ?r2 = "dispatch (UPDATE_WORKFLOW_STEP (status_update ?sid ErrorStatus)) ?r1"
      from Cons.prems(1)
      have "(Inr \<lparr>res_response = connection_apology, res_agentType = js ''general'',
                  res_reportData = None\<rparr>, ?r2) = (res, r')"
        unfolding generateResponse_loop.simps Let_def if_not_P [OF False] Threw outcome.case .
      then have r': "r' = ?r2" by simp
      have rq: "requests r' = requests r @ [?req]" unfolding r' by simp
      have ef: "effects r' = effects r @ step_block ?sid ?req ErrorStatus"
        unfolding r' by (simp add: step_block_def)
      have "length (requests r') = i + 1" using rq Cons.prems(2) by simp
      moreover have "take i (requests r') = requests r" using rq Cons.prems(2) by simp
      moreover have "requests r' ! i = ?req" using rq Cons.prems(2) by (simp add: nth_append)
      ultimately show ?thesis using ef Threw by (intro exI [of _ 1]) simp
    next
      case (Answered c)
      let ?ai = "case c of None \<Rightarrow> [] | Some x \<Rightarrow> x"
      let ?r2 = "dispatch (UPDATE_WORKFLOW_STEP (status_update ?sid Completed)) ?r1"
      let ?r3 = "?r2\<lparr>finalResponse := finalResponse ?r2 @ ?ai @ [10],
                      finalReportData := (case env_parseReport env ?ai of
                                            None \<Rightarrow> finalReportData ?r2 | Some d \<Rightarrow> Some d),
                      conversationHistory := ?h1 @ [\<lparr>role = Assistant, content = ?ai\<rparr>]\<rparr>"
      from Cons.prems(1)
      have rest: "generateResponse_loop env um (i + 1) keys ?r3 = (res, r')"
        unfolding generateResponse_loop.simps Let_def if_not_P [OF False] Answered outcome.case .
      have rq3: "requests ?r3 = requests r @ [?req]" by simp
      have ef3: "effects ?r3 = effects r @ step_block ?sid ?req Completed"
        by (simp add: step_block_def)
      have len3: "length (requests ?r3) = i + 1" using rq3 Cons.prems(2) by simp
      from Cons.IH [OF rest len3] obtain m where m: "m \<le> length keys"
        and l: "length (requests r') = i + 1 + m"
        and t: "take (i + 1) (requests r') = requests ?r3"
        and e: "effects r' = effects ?r3 @
             concat (map (\<lambda>j. step_block (js ''step-'' @ decimal (j + 1)) (requests r' ! j)
                                (case env_answer env j of Threw _ \<Rightarrow> ErrorStatus
                                                        | Answered _ \<Rightarrow> Completed))
                         [i + 1..<i + 1 + m])"
        by blast
      from t rq3 have t': "take (Suc i) (requests r') = requests r @ [?req]" by simp
      have "take i (take (Suc i) (requests r')) = take i (requests r @ [?req])"
        using t' by simp
      then have ti: "take i (requests r') = requests r" using Cons.prems(2) by (simp add: min_def)
      have "take (Suc i) (requests r') ! i = (requests r @ [?req]) ! i" using t' by simp
      then have ni: "requests r' ! i = ?req" using Cons.prems(2) by (simp add: nth_append)
      have upt: "[i..<i + Suc m] = i # [i + 1..<i + 1 + m]" by (simp add: upt_conv_Cons)
      have "effects r' = effects r @
             concat (map (\<lambda>j. step_block (js ''step-'' @ decimal (j + 1)) (requests r' ! j)
                                (case env_answer env j of Threw _ \<Rightarrow> ErrorStatus
                                                        | Answered _ \<Rightarrow> Completed))
                         [i..<i + Suc m])"
        unfolding upt e ef3 using ni Answered by simp
      with m l ti show ?thesis by (intro exI [of _ "Suc m"]) simp
    qed
  qed
qed

lemma generateResponse_loop_replay:
  assumes "app r = replay s0 (effects r)"
  shows "app (snd (generateResponse_loop env um i keys r)) =
           replay s0 (effects (snd (generateResponse_loop env um i keys r)))"
  using assms
proof (induction keys arbitrary: i r)
  case Nil
  then show ?case by simp
next
  case (Cons k keys)
  show ?case
  proof (cases "map_of AGENTS k = None \<and> map_of object_prototype k = None")
    case True
    with Cons.prems show ?thesis by simp
  next
    case False
    show ?thesis
    proof (cases "env_answer env i")
      case (Threw e)
      with Cons.prems show ?thesis by (simp add: Let_def False replay_def)
    next
      case (Answered c)
      then show ?thesis
        by (simp add: Let_def False) (rule Cons.IH, simp add: Cons.prems replay_def)
    qed
  qed
qed

lemma generateResponse_trace:
  fixes env :: "'r env"
  assumes "generateResponse env userMessage history state = (res, r)"
  shows "length (requests r) \<le> length (createWorkflowSteps (selectAgent (env_toLowerCase env) userMessage))"
    and "effects r =
           Dispatched (SET_WORKFLOW (createWorkflowSteps (selectAgent (env_toLowerCase env) userMessage))) #
           concat (map (\<lambda>j. step_block
                          (ws_id (createWorkflowSteps (selectAgent (env_toLowerCase env) userMessage) ! j))
                          (requests r ! j)
                          (case env_answer env j of Threw _ \<Rightarrow> ErrorStatus
                                                  | Answered _ \<Rightarrow> Completed))
                       [0..<length (requests r)])"
    and "app r = replay state (effects r)"
proof -
  let ?keys = "selectAgent (env_toLowerCase env) userMessage"
  let ?start = "dispatch (SET_WORKFLOW (createWorkflowSteps ?keys))
                  \<lparr>finalResponse = [], finalReportData = None, finalAgentType = js ''general'',
                   conversationHistory = history, app = state, requests = [],
                   effects = []\<rparr> :: 'r run"
  from assms have loop: "generateResponse_loop env userMessage 0 ?keys ?start = (res, r)"
    unfolding generateResponse_def Let_def .
  have "length (requests ?start) = 0" by simp
  from generateResponse_loop_trace [OF loop this] obtain m where m: "m \<le> length ?keys"
    and l: "length (requests r) = m"
    and e: "effects r = effects ?start @
              concat (map (\<lambda>j. step_block (js ''step-'' @ decimal (j + 1)) (requests r ! j)
                                 (case env_answer env j of Threw _ \<Rightarrow> ErrorStatus
                                                         | Answered _ \<Rightarrow> Completed))
                          [0..<m])"
    by auto
  show "length (requests r) \<le> length (createWorkflowSteps ?keys)" using m l by simp
  have meq: "map (\<lambda>j. step_block (js ''step-'' @ decimal (j + 1)) (requests r ! j)
                   (case env_answer env j of Threw _ \<Rightarrow> ErrorStatus | Answered _ \<Rightarrow> Completed))
            [0..<m] =
        map (\<lambda>j. step_block (ws_id (createWorkflowSteps ?keys ! j)) (requests r ! j)
                   (case env_answer env j of Threw _ \<Rightarrow> ErrorStatus | Answered _ \<Rightarrow> Completed))
            [0..<m]"
    using m by (intro map_cong refl) (simp add: createWorkflowSteps_id)
  from e [unfolded meq] l show "effects r =
           Dispatched (SET_WORKFLOW (createWorkflowSteps ?keys)) #
           concat (map (\<lambda>j. step_block (ws_id (createWorkflowSteps ?keys ! j)) (requests r ! j)
                          (case env_answer env j of Threw _ \<Rightarrow> ErrorStatus
                                                  | Answered _ \<Rightarrow> Completed))
                       [0..<length (requests r)])"
    by simp
  have "app ?start = replay state (effects ?start)" by (simp add: replay_def)
  from generateResponse_loop_replay [OF this, of env userMessage 0 ?keys] loop
  show "app r = replay state (effects r)" by simp
qed

lemma generateEnhancedResponse_app:
  assumes "generateEnhancedResponse env userMessage hasData history state = (res, r)"
  shows "x_app r =
           (if validateChatMessage userMessage = None \<and>
               1 < length (plan_workflow (selectOptimalAgents (env_toLowerCase env)
                                            (env_sanitize env userMessage) hasData))
            then appReducer state (SET_WORKFLOW (plan_workflow
                   (selectOptimalAgents (env_toLowerCase env) (env_sanitize env userMessage) hasData)))
            else state)"
proof (cases "validateChatMessage userMessage")
  case (Some e)
  with assms show ?thesis by (auto simp: generateEnhancedResponse_def Let_def)
next
  case None
  let ?p = "selectOptimalAgents (env_toLowerCase env) (env_sanitize env userMessage) hasData"
  let ?start = "\<lparr>x_finalResponse = [], x_finalReportData = None,
                   x_finalAgentType = js ''general'', x_aggregatedInsights = [],
                   x_conversationHistory = history, x_app = state, x_submitted = []\<rparr>"
  let ?start1 = "if length (plan_workflow ?p) > 1
                 then ?start\<lparr>x_app := appReducer state (SET_WORKFLOW (plan_workflow ?p))\<rparr>
                 else ?start"
  obtain res1 r1 where loop:
    "generateEnhancedResponse_loop env (env_sanitize env userMessage) (length (agents ?p)) 0
       (agents ?p) ?start1 = (res1, r1)"
    by (cases "generateEnhancedResponse_loop env (env_sanitize env userMessage) (length (agents ?p)) 0
                 (agents ?p) ?start1")
  from enhanced_loop_submits_all [OF selectOptimalAgents_valid,
         of env "env_sanitize env userMessage" "length (agents ?p)" 0 "env_toLowerCase env"
            "env_sanitize env userMessage" hasData ?start1] loop
  have a: "x_app r1 = x_app ?start1" by simp
  have "x_app r = x_app r1"
    using assms None loop by (cases res1) (auto simp: generateEnhancedResponse_def Let_def)
  with a None show ?thesis by (simp split: if_splits)
qed

text \<open>
  C8, amended. Every step of a plan of \<^verbatim>\<open>selectOptimalAgents\<close> has the status pending.
  In a plan of \<^verbatim>\<open>createWorkflowSteps\<close> the step at index 0 is created active and every
  later step pending. \<^verbatim>\<open>SET_WORKFLOW\<close> registers the steps as they are.

  In a run of \<^verbatim>\<open>MultiAgentChatHandler.generateResponse\<close> the handler activates every step
  that it executes, by a dispatch of its own just before the step's request. The effects
  of the run are the registration followed, for each executed step in the order of the
  plan, by the dispatch that sets the step active, the step's request, and the dispatch
  that sets the step completed or error; the application state after the run is what
  these dispatches make of the state before. After the registration and \<open>a\<close> executed
  steps, the first \<open>a\<close> steps have their final status, completed or error, and every other
  step has the status it was created with: a step at an index other than 0 is pending
  until the dispatch that activates it. After that dispatch, and so during the step's
  request, the step is active and every later step is still as it was created.

  \<^verbatim>\<open>EnhancedMultiAgentChatHandler.generateEnhancedResponse\<close> activates no step: after the
  run the application state is the state in which the plan was registered, when the plan
  has more than one step, and otherwise the state before the run.
\<close>

theorem step_statuses_and_activation:
  "(\<forall>toLowerCase userMessage hasData.
      \<forall>s \<in> set (plan_workflow (selectOptimalAgents toLowerCase userMessage hasData)).
        ws_status s = Pending) \<and>
   (\<forall>agentKeys i. i < length agentKeys \<longrightarrow>
      ws_status (createWorkflowSteps agentKeys ! i) = (if i = 0 then Active else Pending)) \<and>
   (\<forall>(st :: 'a AppState_scheme) steps. workflow (appReducer st (SET_WORKFLOW steps)) = steps) \<and>
   (\<forall>(env :: 'r env) userMessage history state res r.
      generateResponse env userMessage history state = (res, r) \<longrightarrow>
        (let registered = createWorkflowSteps (selectAgent (env_toLowerCase env) userMessage);
             final = (\<lambda>j. case env_answer env j of Threw _ \<Rightarrow> ErrorStatus
                                                   | Answered _ \<Rightarrow> Completed);
             executed = (\<lambda>a. Dispatched (SET_WORKFLOW registered) #
                              concat (map (\<lambda>j. step_block (ws_id (registered ! j)) (requests r ! j)
                                                 (final j)) [0..<a]))
         in length (requests r) \<le> length registered \<and>
            effects r = executed (length (requests r)) \<and>
            app r = replay state (effects r) \<and>
            (\<forall>a \<le> length (requests r).
               map ws_status (workflow (replay state (executed a))) =
                 map final [0..<a] @ drop a (map ws_status registered)) \<and>
            (\<forall>a < length (requests r).
               map ws_status (workflow (replay state (executed a @
                 [Dispatched (UPDATE_WORKFLOW_STEP
                    (status_update (ws_id (registered ! a)) Active))]))) =
                 map final [0..<a] @ Active # drop (Suc a) (map ws_status registered)))) \<and>
   (\<forall>(env :: 'r env) userMessage hasData history state res r.
      generateEnhancedResponse env userMessage hasData history state = (res, r) \<longrightarrow>
        x_app r =
          (if validateChatMessage userMessage = None \<and>
              1 < length (plan_workflow (selectOptimalAgents (env_toLowerCase env)
                                           (env_sanitize env userMessage) hasData))
           then appReducer state (SET_WORKFLOW (plan_workflow
                  (selectOptimalAgents (env_toLowerCase env) (env_sanitize env userMessage) hasData)))
           else state))"
proof (intro conjI allI impI)
  fix toLowerCase userMessage hasData
  show "\<forall>s \<in> set (plan_workflow (selectOptimalAgents toLowerCase userMessage hasData)).
        ws_status s = Pending"
    by (simp add: selectOptimalAgents_def Let_def step_def split: option.splits prod.splits)
next
  fix agentKeys :: "jsstring list" and i
  assume "i < length agentKeys"
  then show "ws_status (createWorkflowSteps agentKeys ! i) = (if i = 0 then Active else Pending)"
    by (simp add: createWorkflowSteps_nth createWorkflowStep_def Let_def)
next
  fix st :: "'a AppState_scheme" and steps
  show "workflow (appReducer st (SET_WORKFLOW steps)) = steps"
    by (simp add: appReducer_def)
next
  fix env :: "'r env" and userMessage history state res and r :: "'r run"
  assume run: "generateResponse env userMessage history state = (res, r)"
  let ?registered = "createWorkflowSteps (selectAgent (env_toLowerCase env) userMessage)"
  let ?final = "\<lambda>j. case env_answer env j of Threw _ \<Rightarrow> ErrorStatus | Answered _ \<Rightarrow> Completed"
  let ?executed = "\<lambda>a. Dispatched (SET_WORKFLOW ?registered) #
                        concat (map (\<lambda>j. step_block (ws_id (?registered ! j)) (requests r ! j)
                                           (?final j)) [0..<a])"
  note t = generateResponse_trace [OF run]
  have d: "distinct (map ws_id ?registered)" by (rule createWorkflowSteps_distinct)
  have finished: "map ws_status (workflow (replay state (?executed a))) =
                map ?final [0..<a] @ drop a (map ws_status ?registered)"
    if "a \<le> length (requests r)" for a
    using replay_blocks [OF d, of a state "\<lambda>j. requests r ! j" ?final] that t(1) by simp
  have act: "map ws_status (workflow (replay state (?executed a @
                 [Dispatched (UPDATE_WORKFLOW_STEP
                    (status_update (ws_id (?registered ! a)) Active))]))) =
                 map ?final [0..<a] @ Active # drop (Suc a) (map ws_status ?registered)"
    if "a < length (requests r)" for a
    using replay_activated [OF d, of a state "\<lambda>j. requests r ! j" ?final] that t(1) by simp
  show "let registered = createWorkflowSteps (selectAgent (env_toLowerCase env) userMessage);
             final = (\<lambda>j. case env_answer env j of Threw _ \<Rightarrow> ErrorStatus
                                                   | Answered _ \<Rightarrow> Completed);
             executed = (\<lambda>a. Dispatched (SET_WORKFLOW registered) #
                              concat (map (\<lambda>j. step_block (ws_id (registered ! j)) (requests r ! j)
                                                 (final j)) [0..<a]))
         in length (requests r) \<le> length registered \<and>
            effects r = executed (length (requests r)) \<and>
            app r = replay state (effects r) \<and>
            (\<forall>a \<le> length (requests r).
               map ws_status (workflow (replay state (executed a))) =
                 map final [0..<a] @ drop a (map ws_status registered)) \<and>
            (\<forall>a < length (requests r).
               map ws_status (workflow (replay state (executed a @
                 [Dispatched (UPDATE_WORKFLOW_STEP
                    (status_update (ws_id (registered ! a)) Active))]))) =
                 map final [0..<a] @ Active # drop (Suc a) (map ws_status registered))"
    unfolding Let_def using t finished act by (intro conjI allI impI)
next
  fix env :: "'r env" and userMessage hasData history state res and r :: "'r enhanced_run"
  assume "generateEnhancedResponse env userMessage hasData history state = (res, r)"
  then show "x_app r =
          (if validateChatMessage userMessage = None \<and>
              1 < length (plan_workflow (selectOptimalAgents (env_toLowerCase env)
                                           (env_sanitize env userMessage) hasData))
           then appReducer state (SET_WORKFLOW (plan_workflow
                  (selectOptimalAgents (env_toLowerCase env) (env_sanitize env userMessage) hasData)))
           else state)"
    by (rule generateEnhancedResponse_app)
qed

theorem step_statuses_and_activation_witness:
  "ws_status (createWorkflowSteps [js ''eda'', js ''forecasting''] ! 0) = Active \<and>
   ws_status (createWorkflowSteps [js ''eda'', js ''forecasting''] ! 1) = Pending \<and>
   map ws_status (plan_workflow (selectOptimalAgents (\<lambda>s. s) (js ''forecast'') True)) =
     replicate 6 Pending \<and>
   length (effects (snd (generateResponse env_second_fails (js ''forecast'') [] app0))) = 7 \<and>
   map ws_status (workflow (replay app0
     (take 1 (effects (snd (generateResponse env_second_fails (js ''forecast'') [] app0)))))) =
     [Active, Pending] \<and>
   map ws_status (workflow (replay app0
     (take 4 (effects (snd (generateResponse env_second_fails (js ''forecast'') [] app0)))))) =
     [Completed, Pending] \<and>
   map ws_status (workflow (replay app0
     (take 5 (effects (snd (generateResponse env_second_fails (js ''forecast'') [] app0)))))) =
     [Completed, Active] \<and>
   map ws_status (workflow (app (snd (generateResponse env_second_fails (js ''forecast'') [] app0)))) =
     [Completed, ErrorStatus] \<and>
   map ws_status (workflow (x_app (snd (generateEnhancedResponse env_unauthorized (js ''forecast'')
     True [] app0)))) = replicate 6 Pending"
proof -
  note main = step_statuses_and_activation [where 'a = unit and 'r = unit]
  note created = main [THEN conjunct2, THEN conjunct1, rule_format]
  note planned = main [THEN conjunct1, rule_format]
  note handler = main [THEN conjunct2, THEN conjunct2, THEN conjunct2, THEN conjunct1, rule_format]
  note enhanced = main [THEN conjunct2, THEN conjunct2, THEN conjunct2, THEN conjunct2, rule_format]
  let ?keys = "[js ''eda'', js ''forecasting'']"
  let ?plan = "plan_workflow (selectOptimalAgents (\<lambda>s. s) (js ''forecast'') True)"
  have a: "ws_status (createWorkflowSteps ?keys ! 0) = Active"
    using created [of 0 ?keys] by simp
  have b: "ws_status (createWorkflowSteps ?keys ! 1) = Pending"
    using created [of 1 ?keys] by simp
  have len: "length ?plan = 6"
    by (simp add: selectOptimalAgents_def regex_test_i_def js_def ascii_lower_def Let_def)
  have "\<forall>s \<in> set ?plan. ws_status s = Pending"
    using planned [of _ "\<lambda>s. s" "js ''forecast''" True] by blast
  then have "map ws_status ?plan = replicate (length ?plan) Pending"
    by (simp add: map_replicate_const [symmetric] cong: map_cong)
  with len have c: "map ws_status ?plan = replicate 6 Pending" by simp
  let ?run = "generateResponse env_second_fails (js ''forecast'') [] app0"
  let ?r = "snd ?run"
  have sel: "selectAgent (env_toLowerCase env_second_fails) (js ''forecast'') = ?keys"
    by (simp add: selectAgent_def regex_test_i_def js_def ascii_lower_def Let_def
          env_second_fails_def)
  have sts: "map ws_status (createWorkflowSteps ?keys) = [Active, Pending]"
    by (simp add: createWorkflowSteps_def createWorkflowStep_def upt_rec Let_def)
  have valid: "(map_of AGENTS (js ''eda'') = None) = False"
    "(map_of AGENTS (js ''forecasting'') = None) = False"
    by (simp_all add: AGENTS_def js_def)
  have ans: "env_answer env_second_fails 0 = Answered (Some (js ''Sales rise.''))"
    "env_answer env_second_fails (Suc 0) =
       Threw (Some (js ''Network connection failed. Please check your internet connection.''))"
    by (simp_all add: env_second_fails_def)
  have n: "length (requests ?r) = 2"
    unfolding generateResponse_def sel Let_def by (simp add: valid ans Let_def)
  have fin: "(case env_answer env_second_fails 0 of Threw _ \<Rightarrow> ErrorStatus
                                                   | Answered _ \<Rightarrow> Completed) = Completed"
    "(case env_answer env_second_fails (Suc 0) of Threw _ \<Rightarrow> ErrorStatus
                                                 | Answered _ \<Rightarrow> Completed) = ErrorStatus"
    by (simp_all add: ans)
  have run: "?run = (fst ?run, ?r)" by simp
  note spec = handler [OF run, unfolded Let_def sel n]
  let ?registered = "createWorkflowSteps ?keys"
  let ?final = "\<lambda>j. case env_answer env_second_fails j of Threw _ \<Rightarrow> ErrorStatus
                                                           | Answered _ \<Rightarrow> Completed"
  let ?executed = "\<lambda>a. Dispatched (SET_WORKFLOW ?registered) #
                        concat (map (\<lambda>j. step_block (ws_id (?registered ! j)) (requests ?r ! j)
                                           (?final j)) [0..<a])"
  note ef = spec [THEN conjunct2, THEN conjunct1]
  note ap = spec [THEN conjunct2, THEN conjunct2, THEN conjunct1]
  note fi = spec [THEN conjunct2, THEN conjunct2, THEN conjunct2, THEN conjunct1, rule_format]
  note ac = spec [THEN conjunct2, THEN conjunct2, THEN conjunct2, THEN conjunct2, rule_format]
  have two: "[0..<2] = [0, Suc 0]" "[0..<1] = [0]" by (simp_all add: upt_rec)
  have d: "length (effects ?r) = 7" unfolding ef by (simp add: two step_block_def)
  have t1: "take 1 (effects ?r) = ?executed 0" unfolding ef by simp
  have t4: "take 4 (effects ?r) = ?executed 1" unfolding ef by (simp add: two step_block_def)
  have t5: "take 5 (effects ?r) = ?executed 1 @
              [Dispatched (UPDATE_WORKFLOW_STEP (status_update (ws_id (?registered ! 1)) Active))]"
    unfolding ef by (simp add: two step_block_def)
  have e: "map ws_status (workflow (replay app0 (take 1 (effects ?r)))) = [Active, Pending]"
    unfolding t1 using fi [of 0] by (simp add: sts)
  have f: "map ws_status (workflow (replay app0 (take 4 (effects ?r)))) = [Completed, Pending]"
    unfolding t4 using fi [of 1] by (simp add: sts fin two)
  have g: "map ws_status (workflow (replay app0 (take 5 (effects ?r)))) = [Completed, Active]"
    unfolding t5 using ac [of 1] by (simp add: sts fin two)
  have "map ws_status (workflow (replay app0 (?executed 2))) = [Completed, ErrorStatus]"
    using fi [of 2] by (simp add: sts fin two)
  then have h: "map ws_status (workflow (app ?r)) = [Completed, ErrorStatus]"
    unfolding ap ef .
  let ?xrun = "generateEnhancedResponse env_unauthorized (js ''forecast'') True [] app0"
  have v: "validateChatMessage (js ''forecast'') = None"
    by (simp add: validateChatMessage_def trim_def is_ws_def js_def)
  have xrun: "?xrun = (fst ?xrun, snd ?xrun)" by simp
  have xe: "env_toLowerCase env_unauthorized = (\<lambda>s. s)" "env_sanitize env_unauthorized = (\<lambda>s. s)"
    by (simp_all add: env_unauthorized_def)
  from enhanced [OF xrun, unfolded xe v] len
  have "x_app (snd ?xrun) = appReducer app0 (SET_WORKFLOW ?plan)" by simp
  then have i: "map ws_status (workflow (x_app (snd ?xrun))) = replicate 6 Pending"
    using c by (simp add: appReducer_def)
  from a b c d e f g h i show ?thesis by (intro conjI)
qed

end
